theory Spec2Isabelle
  imports Main "HOL-Library.Word"
begin

unbundle bit_operations_syntax

section \<open>Configuration: entity ids\<close>

text \<open>
  \<^verbatim>\<open>family_id\<close> is \<^verbatim>\<open>std::uint16_t\<close> and \<^verbatim>\<open>entity_id\<close> is \<^verbatim>\<open>std::uint32_t\<close>.
  An entity id packs an index in its low 22 bits and a version (generation) in its
  high 10 bits. The masks are \<^verbatim>\<open>std::size_t\<close> constants in the source; both are below
  \<open>2 ^ 32\<close>, so masking in \<^verbatim>\<open>size_t\<close> and converting back to \<^verbatim>\<open>entity_id\<close> is the
  32-bit \<open>AND\<close>.
\<close>

type_synonym family_id = "16 word"
type_synonym entity_id = "32 word"

definition entity_id_index_bits :: nat where
  "entity_id_index_bits = 22"

definition entity_id_index_mask :: entity_id where
  "entity_id_index_mask = push_bit entity_id_index_bits 1 - 1"

definition entity_id_version_bits :: nat where
  "entity_id_version_bits = 10"

definition entity_id_version_mask :: entity_id where
  "entity_id_version_mask = push_bit entity_id_version_bits 1 - 1"

definition entity_id_index :: "entity_id \<Rightarrow> entity_id" where
  "entity_id_index i = i AND entity_id_index_mask"

definition entity_id_version :: "entity_id \<Rightarrow> entity_id" where
  "entity_id_version i = drop_bit entity_id_index_bits i AND entity_id_version_mask"

definition entity_id_join :: "entity_id \<Rightarrow> entity_id \<Rightarrow> entity_id" where
  "entity_id_join index version = index OR push_bit entity_id_index_bits version"

section \<open>Errors and the platform\<close>

text \<open>
  Every exception of the source is a value: \<^verbatim>\<open>std::length_error\<close> from
  \<^verbatim>\<open>new_capacity_for_\<close>, the three \<^verbatim>\<open>std::logic_error\<close>s (told apart by their
  messages), and \<^verbatim>\<open>std::bad_alloc\<close> from a vector that cannot allocate.
\<close>

datatype error =
    Length_error
  | Bad_alloc
  | Value_not_found
  | Component_not_found
  | Entity_index_overflow

text \<open>
  What the code takes from the platform: \<open>vec_max_size\<close> is the value of
  \<^verbatim>\<open>std::min(dense_.max_size(), sparse_.max_size())\<close>; \<open>alloc_ok n\<close> says whether
  \<^verbatim>\<open>reserve\<close> can allocate its two new arrays of \<open>n\<close> elements; \<open>push_ok n\<close> says
  whether \<^verbatim>\<open>push_back\<close> on a value vector of length \<open>n\<close> finds memory.
\<close>

record platform =
  vec_max_size :: nat
  alloc_ok :: "nat \<Rightarrow> bool"
  push_ok :: "nat \<Rightarrow> bool"

section \<open>detail::sparse\_set\<close>

text \<open>
  The members \<^verbatim>\<open>dense_\<close>, \<^verbatim>\<open>sparse_\<close>, \<^verbatim>\<open>size_\<close> and \<^verbatim>\<open>capacity_\<close>. \<^verbatim>\<open>std::size_t\<close> is \<open>nat\<close>:
  the indices of this library are entity indices (below \<open>2 ^ 22\<close>) and family ids
  (below \<open>2 ^ 16\<close>), and \<^verbatim>\<open>new_capacity_for_\<close> guards the doubling by \<open>max_size\<close>.
  The indexer is a parameter, as the \<^verbatim>\<open>Indexer\<close> template argument is.
\<close>

record 'a sparse_set =
  set_dense :: "'a list"
  set_sparse :: "nat list"
  set_size :: nat
  set_capacity :: nat

definition sparse_set_empty :: "'a sparse_set" where
  "sparse_set_empty = \<lparr>set_dense = [], set_sparse = [], set_size = 0, set_capacity = 0\<rparr>"

text \<open>The default indexer \<^verbatim>\<open>sparse_unsigned_indexer\<close>: \<^verbatim>\<open>static_cast<std::size_t>(v)\<close>.\<close>

definition sparse_unsigned_indexer :: "'w::len word \<Rightarrow> nat" where
  "sparse_unsigned_indexer v = unat v"

definition sparse_set_has :: "('a \<Rightarrow> nat) \<Rightarrow> 'a sparse_set \<Rightarrow> 'a \<Rightarrow> bool" where
  "sparse_set_has indexer s v =
     (let vi = indexer v
      in vi < set_capacity s \<and> set_sparse s ! vi < set_size s \<and> set_dense s ! (set_sparse s ! vi) = v)"

definition sparse_set_max_size :: "platform \<Rightarrow> nat" where
  "sparse_set_max_size p = vec_max_size p"

definition sparse_set_new_capacity_for ::
  "platform \<Rightarrow> 'a sparse_set \<Rightarrow> nat \<Rightarrow> error + nat" where
  "sparse_set_new_capacity_for p s nsize =
     (let ms = sparse_set_max_size p
      in if nsize > ms then Inl Length_error
         else if set_capacity s \<ge> ms div 2 then Inr ms
         else Inr (max (set_capacity s * 2) nsize))"

text \<open>
  \<^verbatim>\<open>reserve\<close> builds two value-initialised vectors of the new capacity, copies the old
  ones to their fronts and swaps them in. A failed allocation leaves the set as it was.
\<close>

definition sparse_set_reserve ::
  "platform \<Rightarrow> 'a::zero sparse_set \<Rightarrow> nat \<Rightarrow> error + 'a sparse_set" where
  "sparse_set_reserve p s ncapacity =
     (if ncapacity > set_capacity s then
        (if alloc_ok p ncapacity then
           Inr (s\<lparr>set_dense := set_dense s @ replicate (ncapacity - length (set_dense s)) 0,
                  set_sparse := set_sparse s @ replicate (ncapacity - length (set_sparse s)) 0,
                  set_capacity := ncapacity\<rparr>)
         else Inl Bad_alloc)
      else Inr s)"

text \<open>The result and the set after the call; after an exception the set is returned too.\<close>

definition sparse_set_insert ::
  "platform \<Rightarrow> ('a \<Rightarrow> nat) \<Rightarrow> 'a::zero sparse_set \<Rightarrow> 'a \<Rightarrow> (error + bool) \<times> 'a sparse_set" where
  "sparse_set_insert p indexer s v =
     (if sparse_set_has indexer s v then (Inr False, s)
      else
        let vi = indexer v;
            grown = (if vi \<ge> set_capacity s then
                       (case sparse_set_new_capacity_for p s (vi + 1) of
                          Inl e \<Rightarrow> Inl e
                        | Inr n \<Rightarrow> sparse_set_reserve p s n)
                     else Inr s)
        in case grown of
             Inl e \<Rightarrow> (Inl e, s)
           | Inr s' \<Rightarrow>
               (Inr True,
                s'\<lparr>set_dense := (set_dense s')[set_size s' := v],
                    set_sparse := (set_sparse s')[vi := set_size s'],
                    set_size := set_size s' + 1\<rparr>))"

definition sparse_set_unordered_erase ::
  "('a \<Rightarrow> nat) \<Rightarrow> 'a sparse_set \<Rightarrow> 'a \<Rightarrow> bool \<times> 'a sparse_set" where
  "sparse_set_unordered_erase indexer s v =
     (if \<not> sparse_set_has indexer s v then (False, s)
      else
        let vi = indexer v;
            index = set_sparse s ! vi;
            dense' = (set_dense s)[index := set_dense s ! (set_size s - 1)];
            sparse' = (set_sparse s)[indexer (dense' ! index) := index]
        in (True, s\<lparr>set_dense := dense', set_sparse := sparse', set_size := set_size s - 1\<rparr>))"

definition sparse_set_clear :: "'a sparse_set \<Rightarrow> 'a sparse_set" where
  "sparse_set_clear s = s\<lparr>set_size := 0\<rparr>"

text \<open>
  \<^verbatim>\<open>find_index\<close> returns a pair of a position and a flag; the position of an absent value
  is \<^verbatim>\<open>std::size_t(-1)\<close> and is never read, so the pair is an option here.
\<close>

definition sparse_set_find_index :: "('a \<Rightarrow> nat) \<Rightarrow> 'a sparse_set \<Rightarrow> 'a \<Rightarrow> nat option" where
  "sparse_set_find_index indexer s v =
     (if sparse_set_has indexer s v then Some (set_sparse s ! indexer v) else None)"

definition sparse_set_get_index :: "('a \<Rightarrow> nat) \<Rightarrow> 'a sparse_set \<Rightarrow> 'a \<Rightarrow> error + nat" where
  "sparse_set_get_index indexer s v =
     (case sparse_set_find_index indexer s v of
        Some i \<Rightarrow> Inr i
      | None \<Rightarrow> Inl Value_not_found)"

text \<open>The values between \<^verbatim>\<open>begin()\<close> and \<^verbatim>\<open>end()\<close>: \<open>dense[0..size)\<close>.\<close>

definition sparse_set_values :: "'a sparse_set \<Rightarrow> 'a list" where
  "sparse_set_values s = take (set_size s) (set_dense s)"

text \<open>
  A sequence of calls on one set, applied in order; a call that throws leaves the set
  for the next call.
\<close>

datatype 'a set_op = Insert 'a | Erase 'a

fun sparse_set_apply ::
  "platform \<Rightarrow> ('a \<Rightarrow> nat) \<Rightarrow> 'a set_op \<Rightarrow> 'a::zero sparse_set \<Rightarrow> 'a sparse_set" where
  "sparse_set_apply p indexer (Insert v) s = snd (sparse_set_insert p indexer s v)"
| "sparse_set_apply p indexer (Erase v) s = snd (sparse_set_unordered_erase indexer s v)"


text \<open>
  The key discipline: a value is inserted only when no other stored value has its index.
  An injective indexer (the default one) gives it for every sequence; the registry
  gives it to \<^verbatim>\<open>entity_id_indexer\<close> by never holding two ids of one index.
\<close>

definition sparse_set_index_free :: "('a \<Rightarrow> nat) \<Rightarrow> 'a sparse_set \<Rightarrow> 'a \<Rightarrow> bool" where
  "sparse_set_index_free indexer s v \<longleftrightarrow>
     (\<forall>u \<in> set (sparse_set_values s). indexer u = indexer v \<longrightarrow> u = v)"

fun sparse_set_disciplined ::
  "platform \<Rightarrow> ('a \<Rightarrow> nat) \<Rightarrow> 'a set_op list \<Rightarrow> 'a::zero sparse_set \<Rightarrow> bool" where
  "sparse_set_disciplined p indexer [] s = True"
| "sparse_set_disciplined p indexer (Insert v # ops) s =
     (sparse_set_index_free indexer s v \<and>
      sparse_set_disciplined p indexer ops (sparse_set_apply p indexer (Insert v) s))"
| "sparse_set_disciplined p indexer (Erase v # ops) s =
     sparse_set_disciplined p indexer ops (sparse_set_apply p indexer (Erase v) s)"

text \<open>
  The shape every reachable set has: both vectors have the capacity's length and the
  size does not exceed it, so every read and write of the code is in range.
\<close>

definition sparse_set_wf :: "'a sparse_set \<Rightarrow> bool" where
  "sparse_set_wf s \<longleftrightarrow>
     length (set_dense s) = set_capacity s \<and> length (set_sparse s) = set_capacity s \<and> set_size s \<le> set_capacity s"

text \<open>
  The bijection between the live values and their sparse slots: every value of
  \<open>dense[0..size)\<close> is found through \<open>sparse\<close>, and the values are pairwise distinct.
\<close>

definition sparse_set_inv :: "('a \<Rightarrow> nat) \<Rightarrow> 'a sparse_set \<Rightarrow> bool" where
  "sparse_set_inv indexer s \<longleftrightarrow>
     sparse_set_wf s \<and>
     (\<forall>v \<in> set (sparse_set_values s).
        indexer v < set_capacity s \<and>
        set_sparse s ! indexer v < set_size s \<and>
        set_dense s ! (set_sparse s ! indexer v) = v) \<and>
     distinct (sparse_set_values s)"

section \<open>detail::sparse\_map\<close>

text \<open>The members \<^verbatim>\<open>keys_\<close> (a sparse set) and \<^verbatim>\<open>values_\<close> (a vector).\<close>

record ('k, 'v) sparse_map =
  map_keys :: "'k sparse_set"
  map_values :: "'v list"

definition sparse_map_empty :: "('k, 'v) sparse_map" where
  "sparse_map_empty = \<lparr>map_keys = sparse_set_empty, map_values = []\<rparr>"

definition sparse_map_has :: "('k \<Rightarrow> nat) \<Rightarrow> ('k, 'v) sparse_map \<Rightarrow> 'k \<Rightarrow> bool" where
  "sparse_map_has indexer m k = sparse_set_has indexer (map_keys m) k"

text \<open>
  \<^verbatim>\<open>insert\<close> pushes the value, then records the key inside \<^verbatim>\<open>try\<close>; the handler pops
  the value again and rethrows. A \<^verbatim>\<open>push_back\<close> that throws has changed nothing.
\<close>

definition sparse_map_insert ::
  "platform \<Rightarrow> ('k \<Rightarrow> nat) \<Rightarrow> ('k::zero, 'v) sparse_map \<Rightarrow> 'k \<Rightarrow> 'v \<Rightarrow>
     (error + bool) \<times> ('k, 'v) sparse_map" where
  "sparse_map_insert p indexer m k v =
     (if sparse_set_has indexer (map_keys m) k then (Inr False, m)
      else if \<not> push_ok p (length (map_values m)) then (Inl Bad_alloc, m)
      else
        let pushed = map_values m @ [v]
        in case sparse_set_insert p indexer (map_keys m) k of
             (Inl e, ks) \<Rightarrow> (Inl e, \<lparr>map_keys = ks, map_values = butlast pushed\<rparr>)
           | (Inr b, ks) \<Rightarrow> (Inr b, \<lparr>map_keys = ks, map_values = pushed\<rparr>))"

text \<open>\<^verbatim>\<open>emplace\<close> is the same code with \<^verbatim>\<open>emplace_back\<close>; \<open>v\<close> is the value built from the arguments.\<close>

definition sparse_map_emplace ::
  "platform \<Rightarrow> ('k \<Rightarrow> nat) \<Rightarrow> ('k::zero, 'v) sparse_map \<Rightarrow> 'k \<Rightarrow> 'v \<Rightarrow>
     (error + bool) \<times> ('k, 'v) sparse_map" where
  "sparse_map_emplace p indexer m k v =
     (if sparse_set_has indexer (map_keys m) k then (Inr False, m)
      else if \<not> push_ok p (length (map_values m)) then (Inl Bad_alloc, m)
      else
        let pushed = map_values m @ [v]
        in case sparse_set_insert p indexer (map_keys m) k of
             (Inl e, ks) \<Rightarrow> (Inl e, \<lparr>map_keys = ks, map_values = butlast pushed\<rparr>)
           | (Inr b, ks) \<Rightarrow> (Inr b, \<lparr>map_keys = ks, map_values = pushed\<rparr>))"

definition sparse_map_unordered_erase ::
  "('k \<Rightarrow> nat) \<Rightarrow> ('k, 'v) sparse_map \<Rightarrow> 'k \<Rightarrow> (error + bool) \<times> ('k, 'v) sparse_map" where
  "sparse_map_unordered_erase indexer m k =
     (if \<not> sparse_set_has indexer (map_keys m) k then (Inr False, m)
      else
        case sparse_set_get_index indexer (map_keys m) k of
          Inl e \<Rightarrow> (Inl e, m)
        | Inr index \<Rightarrow>
            (Inr True,
             \<lparr>map_keys = snd (sparse_set_unordered_erase indexer (map_keys m) k),
              map_values = butlast ((map_values m)[index := last (map_values m)])\<rparr>))"

definition sparse_map_clear :: "('k, 'v) sparse_map \<Rightarrow> ('k, 'v) sparse_map" where
  "sparse_map_clear m = \<lparr>map_keys = sparse_set_clear (map_keys m), map_values = []\<rparr>"

definition sparse_map_get_value ::
  "('k \<Rightarrow> nat) \<Rightarrow> ('k, 'v) sparse_map \<Rightarrow> 'k \<Rightarrow> error + 'v" where
  "sparse_map_get_value indexer m k =
     (case sparse_set_get_index indexer (map_keys m) k of
        Inl e \<Rightarrow> Inl e
      | Inr i \<Rightarrow> Inr (map_values m ! i))"

text \<open>
  \<^verbatim>\<open>get_value\<close> returns a reference; the callers that write through it
  (\<^verbatim>\<open>components_.get_value(id) = T(...)\<close>, the calls through a stored storage pointer) are
  this function.
\<close>

definition sparse_map_get_value_assign ::
  "('k \<Rightarrow> nat) \<Rightarrow> ('k, 'v) sparse_map \<Rightarrow> 'k \<Rightarrow> 'v \<Rightarrow> (error + unit) \<times> ('k, 'v) sparse_map" where
  "sparse_map_get_value_assign indexer m k v =
     (case sparse_set_get_index indexer (map_keys m) k of
        Inl e \<Rightarrow> (Inl e, m)
      | Inr i \<Rightarrow> (Inr (), m\<lparr>map_values := (map_values m)[i := v]\<rparr>))"

text \<open>\<^verbatim>\<open>find_value\<close> returns a pointer to the value or \<^verbatim>\<open>nullptr\<close>: the value read there, or \<open>None\<close>.\<close>

definition sparse_map_find_value ::
  "('k \<Rightarrow> nat) \<Rightarrow> ('k, 'v) sparse_map \<Rightarrow> 'k \<Rightarrow> 'v option" where
  "sparse_map_find_value indexer m k =
     (case sparse_set_find_index indexer (map_keys m) k of
        Some i \<Rightarrow> Some (map_values m ! i)
      | None \<Rightarrow> None)"


definition sparse_map_size :: "('k, 'v) sparse_map \<Rightarrow> nat" where
  "sparse_map_size m = length (map_values m)"







definition sparse_map_inv :: "('k \<Rightarrow> nat) \<Rightarrow> ('k, 'v) sparse_map \<Rightarrow> bool" where
  "sparse_map_inv indexer m \<longleftrightarrow>
     sparse_set_inv indexer (map_keys m) \<and> length (map_values m) = set_size (map_keys m)"

section \<open>detail::component\_storage\<close>

text \<open>
  The keys of a component storage are whole entity ids, indexed by their index part:
  \<^verbatim>\<open>entity_id_indexer\<close> returns \<^verbatim>\<open>entity_id_index(id)\<close>. The back reference
  \<^verbatim>\<open>owner_\<close> only builds the entity handles passed to visitors and is left out; a
  handle is its id. All component types share the value type \<open>'c\<close>; a type \<^verbatim>\<open>T\<close> is
  its family id.
\<close>

definition entity_id_indexer :: "entity_id \<Rightarrow> nat" where
  "entity_id_indexer i = unat (entity_id_index i)"

record 'c component_storage =
  components :: "(entity_id, 'c) sparse_map"

definition component_storage_empty :: "'c component_storage" where
  "component_storage_empty = \<lparr>components = sparse_map_empty\<rparr>"

definition component_storage_assign ::
  "platform \<Rightarrow> 'c component_storage \<Rightarrow> entity_id \<Rightarrow> 'c \<Rightarrow> (error + unit) \<times> 'c component_storage" where
  "component_storage_assign p st i c =
     (case sparse_map_emplace p entity_id_indexer (components st) i c of
        (Inl e, m) \<Rightarrow> (Inl e, st\<lparr>components := m\<rparr>)
      | (Inr True, m) \<Rightarrow> (Inr (), st\<lparr>components := m\<rparr>)
      | (Inr False, m) \<Rightarrow>
          (case sparse_map_get_value_assign entity_id_indexer m i c of
             (r, m') \<Rightarrow> (r, st\<lparr>components := m'\<rparr>)))"

text \<open>
  \<^verbatim>\<open>remove\<close> is \<^verbatim>\<open>noexcept\<close>: an exception of \<^verbatim>\<open>unordered_erase\<close> would end the program.
  The erase never throws (\<open>sparse_map_unordered_erase_no_throw\<close> below).
\<close>

definition component_storage_remove ::
  "'c component_storage \<Rightarrow> entity_id \<Rightarrow> bool \<times> 'c component_storage" where
  "component_storage_remove st i =
     (case sparse_map_unordered_erase entity_id_indexer (components st) i of
        (Inr b, m) \<Rightarrow> (b, st\<lparr>components := m\<rparr>)
      | (Inl e, m) \<Rightarrow> (False, st\<lparr>components := m\<rparr>))"

definition component_storage_exists :: "'c component_storage \<Rightarrow> entity_id \<Rightarrow> bool" where
  "component_storage_exists st i = sparse_map_has entity_id_indexer (components st) i"

definition component_storage_find :: "'c component_storage \<Rightarrow> entity_id \<Rightarrow> 'c option" where
  "component_storage_find st i = sparse_map_find_value entity_id_indexer (components st) i"

text \<open>
  \<^verbatim>\<open>for_each_component\<close> walks the keys from \<^verbatim>\<open>begin()\<close> to \<^verbatim>\<open>end()\<close> and calls the
  visitor with each key and \<^verbatim>\<open>get_value\<close> of it. The visitor is a function on an
  accumulator; it does not change the storage it is walking.
\<close>

fun for_each_component_loop ::
  "(entity_id, 'c) sparse_map \<Rightarrow> (entity_id \<Rightarrow> 'c \<Rightarrow> 's \<Rightarrow> 's) \<Rightarrow> entity_id list \<Rightarrow> 's \<Rightarrow> error + 's" where
  "for_each_component_loop m f [] acc = Inr acc"
| "for_each_component_loop m f (i # is) acc =
     (case sparse_map_get_value entity_id_indexer m i of
        Inl e \<Rightarrow> Inl e
      | Inr c \<Rightarrow> for_each_component_loop m f is (f i c acc))"

definition component_storage_for_each_component ::
  "'c component_storage \<Rightarrow> (entity_id \<Rightarrow> 'c \<Rightarrow> 's \<Rightarrow> 's) \<Rightarrow> 's \<Rightarrow> error + 's" where
  "component_storage_for_each_component st f acc =
     for_each_component_loop (components st) f (sparse_set_values (map_keys (components st))) acc"

section \<open>registry\<close>

text \<open>
  The members \<^verbatim>\<open>last_entity_id_\<close>, \<^verbatim>\<open>free_entity_ids_\<close> (a vector used as a stack:
  \<^verbatim>\<open>back()\<close> is the last element), \<^verbatim>\<open>entity_ids_\<close> and \<^verbatim>\<open>storages_\<close> (a sparse map
  from family ids to the owned storages). The systems are not part of the core.
\<close>

record 'c registry =
  last_entity_id :: entity_id
  free_entity_ids :: "entity_id list"
  entity_ids :: "entity_id sparse_set"
  storages :: "(family_id, 'c component_storage) sparse_map"

definition registry_empty :: "'c registry" where
  "registry_empty =
     \<lparr>last_entity_id = 0, free_entity_ids = [], entity_ids = sparse_set_empty,
      storages = sparse_map_empty\<rparr>"

definition is_entity_alive_impl :: "'c registry \<Rightarrow> entity_id \<Rightarrow> bool" where
  "is_entity_alive_impl r ent = sparse_set_has entity_id_indexer (entity_ids r) ent"

definition is_entity_alive :: "'c registry \<Rightarrow> entity_id \<Rightarrow> bool" where
  "is_entity_alive r ent = is_entity_alive_impl r ent"

text \<open>
  In the first branch the id is inserted before the free list is popped; in the second
  \<^verbatim>\<open>++last_entity_id_\<close> comes before the insertion.
\<close>

definition create_entity :: "platform \<Rightarrow> 'c registry \<Rightarrow> (error + entity_id) \<times> 'c registry" where
  "create_entity p r =
     (if free_entity_ids r \<noteq> [] then
        let free_ent_id = last (free_entity_ids r);
            new_ent_id = entity_id_join (entity_id_index free_ent_id)
                                        (entity_id_version free_ent_id + 1)
        in case sparse_set_insert p entity_id_indexer (entity_ids r) new_ent_id of
             (Inl e, ids) \<Rightarrow> (Inl e, r\<lparr>entity_ids := ids\<rparr>)
           | (Inr b, ids) \<Rightarrow>
               (Inr new_ent_id,
                r\<lparr>entity_ids := ids, free_entity_ids := butlast (free_entity_ids r)\<rparr>)
      else if last_entity_id r < entity_id_index_mask then
        let r1 = r\<lparr>last_entity_id := last_entity_id r + 1\<rparr>;
            ent = last_entity_id r1
        in case sparse_set_insert p entity_id_indexer (entity_ids r1) ent of
             (Inl e, ids) \<Rightarrow> (Inl e, r1\<lparr>entity_ids := ids\<rparr>)
           | (Inr b, ids) \<Rightarrow> (Inr ent, r1\<lparr>entity_ids := ids\<rparr>)
      else (Inl Entity_index_overflow, r))"

definition find_storage :: "'c registry \<Rightarrow> family_id \<Rightarrow> 'c component_storage option" where
  "find_storage r family =
     (if sparse_map_has sparse_unsigned_indexer (storages r) family then
        (case sparse_map_get_value sparse_unsigned_indexer (storages r) family of
           Inr st \<Rightarrow> Some st
         | Inl e \<Rightarrow> None)
      else None)"

text \<open>
  A storage is reached through the pointer kept in the table, so a call that changes
  it changes the table's entry: \<open>put_storage\<close> writes the changed storage back.
\<close>

definition put_storage :: "'c registry \<Rightarrow> family_id \<Rightarrow> 'c component_storage \<Rightarrow> 'c registry" where
  "put_storage r family st =
     r\<lparr>storages := snd (sparse_map_get_value_assign sparse_unsigned_indexer (storages r) family st)\<rparr>"

definition get_or_create_storage ::
  "platform \<Rightarrow> 'c registry \<Rightarrow> family_id \<Rightarrow> (error + 'c component_storage) \<times> 'c registry" where
  "get_or_create_storage p r family =
     (case find_storage r family of
        Some st \<Rightarrow> (Inr st, r)
      | None \<Rightarrow>
          (case sparse_map_emplace p sparse_unsigned_indexer (storages r) family
                  component_storage_empty of
             (Inl e, m) \<Rightarrow> (Inl e, r\<lparr>storages := m\<rparr>)
           | (Inr b, m) \<Rightarrow>
               (case sparse_map_get_value sparse_unsigned_indexer m family of
                  Inl e \<Rightarrow> (Inl e, r\<lparr>storages := m\<rparr>)
                | Inr st \<Rightarrow> (Inr st, r\<lparr>storages := m\<rparr>))))"

definition assign_component ::
  "platform \<Rightarrow> 'c registry \<Rightarrow> family_id \<Rightarrow> entity_id \<Rightarrow> 'c \<Rightarrow> (error + bool) \<times> 'c registry" where
  "assign_component p r family ent c =
     (if \<not> is_entity_alive_impl r ent then (Inr False, r)
      else
        case get_or_create_storage p r family of
          (Inl e, r1) \<Rightarrow> (Inl e, r1)
        | (Inr st, r1) \<Rightarrow>
            (case component_storage_assign p st ent c of
               (Inl e, st') \<Rightarrow> (Inl e, put_storage r1 family st')
             | (Inr u, st') \<Rightarrow> (Inr True, put_storage r1 family st')))"

definition remove_component :: "'c registry \<Rightarrow> family_id \<Rightarrow> entity_id \<Rightarrow> bool \<times> 'c registry" where
  "remove_component r family ent =
     (if \<not> is_entity_alive_impl r ent then (False, r)
      else
        case find_storage r family of
          Some st \<Rightarrow>
            (case component_storage_remove st ent of
               (b, st') \<Rightarrow> (b, put_storage r family st'))
        | None \<Rightarrow> (False, r))"

definition exists_component :: "'c registry \<Rightarrow> family_id \<Rightarrow> entity_id \<Rightarrow> bool" where
  "exists_component r family ent =
     (if \<not> is_entity_alive_impl r ent then False
      else
        case find_storage r family of
          Some st \<Rightarrow> component_storage_exists st ent
        | None \<Rightarrow> False)"

text \<open>
  The loop of \<^verbatim>\<open>remove_all_components_impl_\<close> over the family ids of the table. The
  function is \<^verbatim>\<open>noexcept\<close>; \<^verbatim>\<open>get_value\<close> of a key just read from the table does not throw,
  and the model stops the loop if it did.
\<close>

fun remove_all_components_loop ::
  "entity_id \<Rightarrow> family_id list \<Rightarrow> 'c registry \<Rightarrow> nat \<Rightarrow> nat \<times> 'c registry" where
  "remove_all_components_loop ent [] r removed_components = (removed_components, r)"
| "remove_all_components_loop ent (i # is) r removed_components =
     (case sparse_map_get_value sparse_unsigned_indexer (storages r) i of
        Inl e \<Rightarrow> (removed_components, r)
      | Inr st \<Rightarrow>
          (case component_storage_remove st ent of
             (b, st') \<Rightarrow>
               remove_all_components_loop ent is (put_storage r i st')
                 (if b then removed_components + 1 else removed_components)))"

definition remove_all_components_impl :: "'c registry \<Rightarrow> entity_id \<Rightarrow> nat \<times> 'c registry" where
  "remove_all_components_impl r ent =
     (if \<not> is_entity_alive_impl r ent then (0, r)
      else remove_all_components_loop ent (sparse_set_values (map_keys (storages r))) r 0)"

definition remove_all_components :: "'c registry \<Rightarrow> entity_id \<Rightarrow> nat \<times> 'c registry" where
  "remove_all_components r ent = remove_all_components_impl r ent"

text \<open>
  \<^verbatim>\<open>destroy_entity\<close>: the components first, then the id; \<^verbatim>\<open>push_back\<close> on the free list
  can run out of memory after the id has been erased.
\<close>

definition destroy_entity :: "platform \<Rightarrow> 'c registry \<Rightarrow> entity_id \<Rightarrow> (error + bool) \<times> 'c registry" where
  "destroy_entity p r ent =
     (case remove_all_components_impl r ent of
        (n, r1) \<Rightarrow>
          (case sparse_set_unordered_erase entity_id_indexer (entity_ids r1) ent of
             (True, ids) \<Rightarrow>
               (if push_ok p (length (free_entity_ids r1)) then
                  (Inr True, r1\<lparr>entity_ids := ids, free_entity_ids := free_entity_ids r1 @ [ent]\<rparr>)
                else (Inl Bad_alloc, r1\<lparr>entity_ids := ids\<rparr>))
           | (False, ids) \<Rightarrow> (Inr False, r1\<lparr>entity_ids := ids\<rparr>)))"

definition find_component_impl :: "'c registry \<Rightarrow> family_id \<Rightarrow> entity_id \<Rightarrow> 'c option" where
  "find_component_impl r family ent =
     (case find_storage r family of
        Some st \<Rightarrow> component_storage_find st ent
      | None \<Rightarrow> None)"

definition find_component :: "'c registry \<Rightarrow> family_id \<Rightarrow> entity_id \<Rightarrow> 'c option" where
  "find_component r family ent = find_component_impl r family ent"

definition get_component :: "'c registry \<Rightarrow> family_id \<Rightarrow> entity_id \<Rightarrow> error + 'c" where
  "get_component r family ent =
     (case find_component_impl r family ent of
        Some c \<Rightarrow> Inr c
      | None \<Rightarrow> Inl Component_not_found)"

definition for_each_component ::
  "'c registry \<Rightarrow> family_id \<Rightarrow> (entity_id \<Rightarrow> 'c \<Rightarrow> 's \<Rightarrow> 's) \<Rightarrow> 's \<Rightarrow> error + 's" where
  "for_each_component r family f acc =
     (case find_storage r family of
        Some st \<Rightarrow> component_storage_for_each_component st f acc
      | None \<Rightarrow> Inr acc)"

text \<open>
  The per-entity overloads of \<^verbatim>\<open>for_joined_components_impl_\<close>: probe the remaining
  storages in order, collecting the components; with none left, call the visitor.
\<close>

fun for_joined_components_entity ::
  "entity_id \<Rightarrow> (entity_id \<Rightarrow> 'c list \<Rightarrow> 's \<Rightarrow> 's) \<Rightarrow> 'c component_storage list \<Rightarrow> 'c list \<Rightarrow> 's \<Rightarrow> 's" where
  "for_joined_components_entity e f [] cs acc = f e cs acc"
| "for_joined_components_entity e f (st # ss) cs acc =
     (case component_storage_find st e of
        Some c \<Rightarrow> for_joined_components_entity e f ss (cs @ [c]) acc
      | None \<Rightarrow> acc)"

text \<open>
  \<^verbatim>\<open>for_joined_components<T, Ts...>\<close>: the storages of \<^verbatim>\<open>Ts\<close> are looked up first; if one
  is missing nothing is visited; otherwise the storage of \<^verbatim>\<open>T\<close> drives.
\<close>

definition for_joined_components ::
  "'c registry \<Rightarrow> family_id \<Rightarrow> family_id list \<Rightarrow> (entity_id \<Rightarrow> 'c list \<Rightarrow> 's \<Rightarrow> 's) \<Rightarrow> 's \<Rightarrow> error + 's" where
  "for_joined_components r t ts f acc =
     (let ss = map (find_storage r) ts
      in if None \<in> set ss then Inr acc
         else for_each_component r t
                (\<lambda>e c. for_joined_components_entity e f (map the ss) [c]) acc)"

section \<open>Invariants of the registry\<close>

text \<open>The pairs of a sparse map in dense order: key \<open>j\<close> with value \<open>j\<close>.\<close>

definition sparse_map_entries :: "('k, 'v) sparse_map \<Rightarrow> ('k \<times> 'v) list" where
  "sparse_map_entries m = zip (sparse_set_values (map_keys m)) (map_values m)"

definition component_storage_inv :: "'c component_storage \<Rightarrow> bool" where
  "component_storage_inv st \<longleftrightarrow> sparse_map_inv entity_id_indexer (components st)"

definition component_storage_keys :: "'c component_storage \<Rightarrow> entity_id list" where
  "component_storage_keys st = sparse_set_values (map_keys (components st))"

text \<open>
  What the public operations keep true of a registry: the live set and the storage table
  are well formed; every storage is well formed and holds components of live ids only;
  the free ids have pairwise different indices, none of them the index of a live id; no
  index is above \<^verbatim>\<open>last_entity_id_\<close>, which is at most the index mask.
\<close>

definition registry_inv :: "'c registry \<Rightarrow> bool" where
  "registry_inv r \<longleftrightarrow>
     sparse_set_inv entity_id_indexer (entity_ids r) \<and>
     sparse_map_inv sparse_unsigned_indexer (storages r) \<and>
     (\<forall>st \<in> set (map_values (storages r)).
        component_storage_inv st \<and>
        set (component_storage_keys st) \<subseteq> set (sparse_set_values (entity_ids r))) \<and>
     distinct (map entity_id_index (free_entity_ids r)) \<and>
     (\<forall>f \<in> set (free_entity_ids r). \<forall>l \<in> set (sparse_set_values (entity_ids r)).
        entity_id_index f \<noteq> entity_id_index l) \<and>
     (\<forall>i \<in> set (free_entity_ids r) \<union> set (sparse_set_values (entity_ids r)).
        entity_id_index i \<le> last_entity_id r) \<and>
     last_entity_id r \<le> entity_id_index_mask"

text \<open>
  The public mutating operations as data, each with the platform it meets, and a run of
  them from a given registry. A call that throws leaves its registry for the next call.
\<close>

datatype 'c registry_op =
    Create_entity
  | Destroy_entity entity_id
  | Assign_component family_id entity_id 'c
  | Remove_component family_id entity_id
  | Remove_all_components entity_id

fun registry_apply :: "platform \<times> 'c registry_op \<Rightarrow> 'c registry \<Rightarrow> 'c registry" where
  "registry_apply (p, Create_entity) r = snd (create_entity p r)"
| "registry_apply (p, Destroy_entity e) r = snd (destroy_entity p r e)"
| "registry_apply (p, Assign_component t e c) r = snd (assign_component p r t e c)"
| "registry_apply (p, Remove_component t e) r = snd (remove_component r t e)"
| "registry_apply (p, Remove_all_components e) r = snd (remove_all_components r e)"

fun registry_run :: "(platform \<times> 'c registry_op) list \<Rightarrow> 'c registry \<Rightarrow> 'c registry" where
  "registry_run [] r = r"
| "registry_run (a # ops) r = registry_run ops (registry_apply a r)"

section \<open>Concrete platforms and ids for the examples\<close>

definition roomy :: platform where
  "roomy = \<lparr>vec_max_size = 1073741823, alloc_ok = (\<lambda>n. True), push_ok = (\<lambda>n. True)\<rparr>"

definition stingy :: platform where
  "stingy = \<lparr>vec_max_size = 1073741823, alloc_ok = (\<lambda>n. False), push_ok = (\<lambda>n. True)\<rparr>"

text \<open>
  A registry in which an index has been reused: entity 1 is created and destroyed, the
  next entity gets index 1 with version 1 (id \<open>4194305\<close>) and a component of family 7.
\<close>

definition reused_registry :: "nat registry" where
  "reused_registry =
     (let r1 = snd (create_entity roomy registry_empty);
          r2 = snd (destroy_entity roomy r1 1);
          r3 = snd (create_entity roomy r2)
      in snd (assign_component roomy r3 7 4194305 42))"




text \<open>A registry with one freed id, and one whose index space is used up.\<close>

definition freed_registry :: "nat registry" where
  "freed_registry = registry_run [(roomy, Create_entity), (roomy, Destroy_entity 1)] registry_empty"

definition full_registry :: "nat registry" where
  "full_registry = registry_empty\<lparr>last_entity_id := 4194303\<rparr>"

section \<open>Entity id arithmetic\<close>

lemma entity_id_index_mask_value: "entity_id_index_mask = 4194303"
  by (simp add: entity_id_index_mask_def entity_id_index_bits_def)

lemma entity_id_version_mask_value: "entity_id_version_mask = 1023"
  by (simp add: entity_id_version_mask_def entity_id_version_bits_def)

lemma entity_id_index_take_bit: "entity_id_index i = take_bit 22 i"
  by (simp add: entity_id_index_def entity_id_index_mask_def entity_id_index_bits_def
      take_bit_eq_mask mask_eq_exp_minus_1)

lemma entity_id_version_take_bit: "entity_id_version i = take_bit 10 (drop_bit 22 i)"
  by (simp add: entity_id_version_def entity_id_version_mask_def entity_id_version_bits_def
      entity_id_index_bits_def take_bit_eq_mask mask_eq_exp_minus_1)

lemma entity_id_index_join:
  "entity_id_index (entity_id_join (entity_id_index f) v) = entity_id_index f"
  by (simp add: entity_id_index_take_bit entity_id_join_def entity_id_index_bits_def
      take_bit_push_bit bit_eq_iff bit_simps)

lemma entity_id_version_join:
  "entity_id_version (entity_id_join (entity_id_index f) v) = take_bit 10 v"
  apply (simp add: entity_id_index_take_bit entity_id_version_take_bit entity_id_join_def
      entity_id_index_bits_def)
  apply (rule bit_eqI)
  apply (auto simp add: bit_simps)
  done

lemma entity_id_index_le_mask: "entity_id_index i \<le> entity_id_index_mask"
  by (simp add: entity_id_index_def word_and_le1)

lemma version_lt: "unat (entity_id_version i) < 1024"
proof -
  have "unat (take_bit 10 (drop_bit 22 i)) = take_bit 10 (unat (drop_bit 22 i))"
    by (simp add: unsigned_take_bit_eq)
  moreover have "take_bit 10 (unat (drop_bit 22 i)) < 2 ^ 10"
    by (rule take_bit_nat_less_exp)
  ultimately show ?thesis by (simp add: entity_id_version_take_bit)
qed

lemma entity_id_version_bump:
  "unat (entity_id_version (entity_id_join (entity_id_index f) (entity_id_version f + 1)))
     = (unat (entity_id_version f) + 1) mod 2 ^ 10"
proof -
  have "unat (entity_id_version f + 1) = unat (entity_id_version f) + 1"
    using version_lt[of f] by (simp add: unat_word_ariths)
  moreover have "unat (take_bit 10 (entity_id_version f + 1))
      = take_bit 10 (unat (entity_id_version f + 1))"
    by (simp add: unsigned_take_bit_eq)
  moreover have "take_bit 10 (unat (entity_id_version f) + 1)
      = (unat (entity_id_version f) + 1) mod 2 ^ 10"
    by (rule take_bit_eq_mod)
  ultimately show ?thesis
    by (simp only: entity_id_version_join)
qed

lemma entity_id_join_bump_neq:
  "entity_id_join (entity_id_index f) (entity_id_version f + 1) \<noteq> f"
proof
  assume "entity_id_join (entity_id_index f) (entity_id_version f + 1) = f"
  then have "unat (entity_id_version f) = (unat (entity_id_version f) + 1) mod 2 ^ 10"
    using entity_id_version_bump[of f] by simp
  then show False using version_lt[of f]
    by (cases "unat (entity_id_version f) = 1023") (simp_all add: mod_Suc)
qed

lemma fresh_index:
  assumes "l < entity_id_index_mask"
  shows "entity_id_index (l + 1) = l + 1" "entity_id_version (l + 1) = 0"
    "unat (l + 1) = unat l + 1" "l + 1 \<le> entity_id_index_mask"
proof -
  have l: "unat l < 4194303"
    using assms by (simp add: entity_id_index_mask_value word_less_nat_alt)
  then show u: "unat (l + 1) = unat l + 1" by (simp add: unat_word_ariths)
  then have lt: "unat (l + 1) < 2 ^ 22" using l by simp
  show "l + 1 \<le> entity_id_index_mask"
    using u l by (simp add: entity_id_index_mask_value word_le_nat_alt)
  have "unat (take_bit 22 (l + 1)) = take_bit 22 (unat (l + 1))"
    by (simp add: unsigned_take_bit_eq)
  also have "\<dots> = unat (l + 1)" using lt by (simp add: take_bit_nat_eq_self)
  finally have tb: "take_bit 22 (l + 1) = l + 1" by (simp add: word_unat_eq_iff)
  then show "entity_id_index (l + 1) = l + 1" by (simp add: entity_id_index_take_bit)
  have "drop_bit 22 (l + 1) = 0"
    using tb by (simp add: take_bit_eq_self_iff_drop_bit_eq_0)
  then show "entity_id_version (l + 1) = 0" by (simp add: entity_id_version_take_bit)
qed

section \<open>The sparse set keeps its bijection\<close>

lemma sparse_set_inv_has:
  assumes "sparse_set_inv ix s" "v \<in> set (sparse_set_values s)"
  shows "sparse_set_has ix s v"
  using assms by (auto simp: sparse_set_inv_def sparse_set_has_def Let_def)

lemma sparse_set_has_values:
  assumes "sparse_set_wf s" "sparse_set_has ix s v"
  shows "v \<in> set (sparse_set_values s)"
proof -
  let ?j = "set_sparse s ! ix v"
  from assms have j: "?j < set_size s" "set_dense s ! ?j = v" "set_size s \<le> length (set_dense s)"
    by (auto simp: sparse_set_has_def sparse_set_wf_def Let_def)
  then have "sparse_set_values s ! ?j = v" "?j < length (sparse_set_values s)"
    by (auto simp: sparse_set_values_def)
  then show ?thesis by (metis nth_mem)
qed

lemma sparse_set_inv_index_inj:
  assumes "sparse_set_inv ix s" "u \<in> set (sparse_set_values s)" "v \<in> set (sparse_set_values s)"
    "ix u = ix v"
  shows "u = v"
  using assms unfolding sparse_set_inv_def by metis

lemma sparse_set_values_length:
  "sparse_set_wf s \<Longrightarrow> length (sparse_set_values s) = set_size s"
  by (simp add: sparse_set_values_def sparse_set_wf_def)

lemma sparse_set_inv_size_lt:
  assumes inv: "sparse_set_inv ix s" and new: "\<forall>u \<in> set (sparse_set_values s). ix u \<noteq> vi"
    and vi: "vi < set_capacity s"
  shows "set_size s < set_capacity s"
proof -
  let ?S = "set (sparse_set_values s)"
  have wf: "sparse_set_wf s" using inv by (simp add: sparse_set_inv_def)
  have inj: "inj_on ix ?S"
    using inv by (auto intro!: inj_onI dest: sparse_set_inv_index_inj)
  have "card (ix ` ?S) = card ?S" using inj by (rule card_image)
  also have "card ?S = set_size s"
    using inv wf by (simp add: sparse_set_inv_def distinct_card sparse_set_values_length)
  finally have c: "card (ix ` ?S) = set_size s" .
  have "ix ` ?S \<subseteq> {..<set_capacity s} - {vi}"
    using inv new by (auto simp: sparse_set_inv_def)
  then have "card (ix ` ?S) \<le> card ({..<set_capacity s} - {vi})"
    by (intro card_mono) auto
  also have "\<dots> = set_capacity s - 1" using vi by simp
  finally show ?thesis using c vi by simp
qed

lemma sparse_set_reserve_props:
  assumes "sparse_set_reserve p s n = Inr s'" "sparse_set_wf s"
  shows "sparse_set_wf s'" "set_size s' = set_size s" "set_capacity s' = max n (set_capacity s)"
    "sparse_set_values s' = sparse_set_values s"
    "\<forall>i < set_capacity s. set_sparse s' ! i = set_sparse s ! i"
    "\<forall>i < set_capacity s. set_dense s' ! i = set_dense s ! i"
  using assms
  by (auto simp: sparse_set_reserve_def sparse_set_wf_def sparse_set_values_def nth_append
      split: if_splits)

lemma sparse_set_grow_props:
  assumes g: "(if vi \<ge> set_capacity s then
                 (case sparse_set_new_capacity_for p s (vi + 1) of
                    Inl e \<Rightarrow> Inl e
                  | Inr n \<Rightarrow> sparse_set_reserve p s n)
               else Inr s) = Inr s'"
    and wf: "sparse_set_wf s"
  shows "sparse_set_wf s'" "set_size s' = set_size s" "vi < set_capacity s'"
    "set_capacity s \<le> set_capacity s'"
    "sparse_set_values s' = sparse_set_values s"
    "\<forall>i < set_capacity s. set_sparse s' ! i = set_sparse s ! i"
    "\<forall>i < set_capacity s. set_dense s' ! i = set_dense s ! i"
    "vi \<ge> set_capacity s \<Longrightarrow> set_size s' < set_capacity s'"
proof -
  show "sparse_set_wf s'" "set_size s' = set_size s"
    "sparse_set_values s' = sparse_set_values s"
    "\<forall>i < set_capacity s. set_sparse s' ! i = set_sparse s ! i"
    "\<forall>i < set_capacity s. set_dense s' ! i = set_dense s ! i"
    using g wf sparse_set_reserve_props[of p s _ s']
    by (auto split: if_splits sum.splits)
  show c: "vi < set_capacity s'" "set_capacity s \<le> set_capacity s'"
    using g wf sparse_set_reserve_props(3)[of p s _ s']
    by (auto simp: sparse_set_new_capacity_for_def Let_def split: if_splits sum.splits)
  show "vi \<ge> set_capacity s \<Longrightarrow> set_size s' < set_capacity s'"
    using c \<open>set_size s' = set_size s\<close> wf by (simp add: sparse_set_wf_def)
qed

lemma sparse_set_insert_failed:
  "fst (sparse_set_insert p ix s v) = Inl e \<Longrightarrow> snd (sparse_set_insert p ix s v) = s"
  by (auto simp: sparse_set_insert_def Let_def split: if_splits sum.splits)

lemma sparse_set_insert_errors:
  "sparse_set_insert p ix s v = (Inl e, t) \<Longrightarrow> e = Length_error \<or> e = Bad_alloc"
  by (auto simp: sparse_set_insert_def sparse_set_new_capacity_for_def sparse_set_reserve_def
      Let_def split: if_splits sum.splits)


lemma sparse_set_insert_new:
  assumes r: "sparse_set_insert p ix s v = (Inr True, s')"
    and inv: "sparse_set_inv ix s"
    and key: "\<forall>u \<in> set (sparse_set_values s). ix u = ix v \<longrightarrow> u = v"
  shows "sparse_set_inv ix s'" "sparse_set_values s' = sparse_set_values s @ [v]"
    "v \<notin> set (sparse_set_values s)"
proof -
  have wf: "sparse_set_wf s" using inv by (simp add: sparse_set_inv_def)
  have nhas: "\<not> sparse_set_has ix s v"
    using r by (auto simp: sparse_set_insert_def split: if_splits)
  then show notin: "v \<notin> set (sparse_set_values s)"
    using sparse_set_inv_has[OF inv] by auto
  then have fresh: "\<forall>u \<in> set (sparse_set_values s). ix u \<noteq> ix v"
    using key by blast
  define g where "g = (if ix v \<ge> set_capacity s then
                 (case sparse_set_new_capacity_for p s (ix v + 1) of
                    Inl e \<Rightarrow> Inl e
                  | Inr n \<Rightarrow> sparse_set_reserve p s n)
               else Inr s)"
  from r nhas obtain t where gt: "g = Inr t"
    and s': "s' = t\<lparr>set_dense := (set_dense t)[set_size t := v],
                    set_sparse := (set_sparse t)[ix v := set_size t],
                    set_size := set_size t + 1\<rparr>"
    by (auto simp: sparse_set_insert_def Let_def g_def split: sum.splits)
  note gp = sparse_set_grow_props[OF gt[unfolded g_def] wf]
  have lt: "set_size t < set_capacity t"
  proof (cases "ix v \<ge> set_capacity s")
    case True then show ?thesis using gp(8) by simp
  next
    case False
    then have "t = s" using gt by (simp add: g_def)
    then show ?thesis using sparse_set_inv_size_lt[OF inv fresh] False by simp
  qed
  have wft: "sparse_set_wf t" by (rule gp(1))
  have len: "length (set_dense t) = set_capacity t" "length (set_sparse t) = set_capacity t"
    using wft by (auto simp: sparse_set_wf_def)
  show vals: "sparse_set_values s' = sparse_set_values s @ [v]"
  proof -
    have "sparse_set_values s' = take (Suc (set_size t)) ((set_dense t)[set_size t := v])"
      by (simp add: s' sparse_set_values_def)
    also have "\<dots> = take (set_size t) (set_dense t) @ [v]"
      using lt len by (simp add: take_Suc_conv_app_nth)
    also have "take (set_size t) (set_dense t) = sparse_set_values s"
      using gp(5) by (simp add: sparse_set_values_def)
    finally show ?thesis .
  qed
  have wf': "sparse_set_wf s'"
    using wft lt by (simp add: s' sparse_set_wf_def)
  have old: "ix u < set_capacity s' \<and> set_sparse s' ! ix u < set_size s' \<and>
        set_dense s' ! (set_sparse s' ! ix u) = u" if u: "u \<in> set (sparse_set_values s)" for u
  proof -
    from inv u have a: "ix u < set_capacity s" "set_sparse s ! ix u < set_size s"
      "set_dense s ! (set_sparse s ! ix u) = u"
      by (auto simp: sparse_set_inv_def)
    have ne: "ix u \<noteq> ix v" using fresh u by blast
    have b: "set_sparse t ! ix u = set_sparse s ! ix u" using gp(6) a(1) by simp
    have szc: "set_size s \<le> set_capacity s" using wf by (simp add: sparse_set_wf_def)
    have c: "set_dense t ! (set_sparse s ! ix u) = u" using gp(7) a(2,3) szc by simp
    show ?thesis
      using a ne b c gp(2) gp(4) by (simp add: s')
  qed
  have new: "ix v < set_capacity s' \<and> set_sparse s' ! ix v < set_size s' \<and>
        set_dense s' ! (set_sparse s' ! ix v) = v"
    using gp(3) lt len by (simp add: s')
  show "sparse_set_inv ix s'"
    unfolding sparse_set_inv_def
  proof (intro conjI ballI)
    show "sparse_set_wf s'" by (rule wf')
    show "distinct (sparse_set_values s')"
      using inv notin by (simp add: vals sparse_set_inv_def)
  next
    fix u assume "u \<in> set (sparse_set_values s')"
    then consider "u \<in> set (sparse_set_values s)" | "u = v" by (auto simp: vals)
    then show "ix u < set_capacity s'" "set_sparse s' ! ix u < set_size s'"
       "set_dense s' ! (set_sparse s' ! ix u) = u"
      using old new by (cases; blast)+
  qed
qed


lemma sparse_set_unordered_erase_absent:
  "\<not> sparse_set_has ix s v \<Longrightarrow> sparse_set_unordered_erase ix s v = (False, s)"
  by (simp add: sparse_set_unordered_erase_def)

lemma sparse_set_unordered_erase_present:
  assumes inv: "sparse_set_inv ix s" and has: "sparse_set_has ix s v"
  defines "s' \<equiv> snd (sparse_set_unordered_erase ix s v)"
  shows "fst (sparse_set_unordered_erase ix s v) = True"
    "sparse_set_inv ix s'"
    "sparse_set_values s' =
       butlast ((sparse_set_values s)[set_sparse s ! ix v := last (sparse_set_values s)])"
    "set (sparse_set_values s') = set (sparse_set_values s) - {v}"
    "set_capacity s' = set_capacity s"
    "set_size s' = set_size s - 1"
proof -
  define n where "n = set_size s"
  define j where "j = set_sparse s ! ix v"
  define w where "w = set_dense s ! (n - 1)"
  define xs where "xs = take (n - 1) (set_dense s)"
  have wf: "sparse_set_wf s" using inv by (simp add: sparse_set_inv_def)
  have len: "length (set_dense s) = set_capacity s" "length (set_sparse s) = set_capacity s"
    "n \<le> set_capacity s"
    using wf by (auto simp: sparse_set_wf_def n_def)
  have j: "j < n" "set_dense s ! j = v" "ix v < set_capacity s"
    using has by (auto simp: sparse_set_has_def Let_def j_def n_def)
  have s'_eq: "s' = s\<lparr>set_dense := (set_dense s)[j := w],
                       set_sparse := (set_sparse s)[ix w := j],
                       set_size := n - 1\<rparr>"
    using has j len by (simp add: s'_def sparse_set_unordered_erase_def Let_def j_def w_def n_def)
  show "fst (sparse_set_unordered_erase ix s v) = True"
    using has by (simp add: sparse_set_unordered_erase_def Let_def)
  show "set_capacity s' = set_capacity s" "set_size s' = set_size s - 1"
    by (simp_all add: s'_eq n_def)
  have vals: "sparse_set_values s = xs @ [w]"
  proof -
    obtain m where m: "n = Suc m" using j(1) by (cases n) auto
    have "take (Suc m) (set_dense s) = take m (set_dense s) @ [set_dense s ! m]"
      using len m by (simp add: take_Suc_conv_app_nth)
    then show ?thesis by (simp add: sparse_set_values_def n_def[symmetric] m xs_def w_def)
  qed
  have lxs: "length xs = n - 1" using len by (simp add: xs_def)
  have vals': "sparse_set_values s' = xs[j := w]"
    by (simp add: s'_eq sparse_set_values_def xs_def take_update_swap)
  have beyond: "xs[j := w] = xs" if "\<not> j < n - 1"
    using that lxs by (simp add: list_update_beyond)
  show "sparse_set_values s' =
       butlast ((sparse_set_values s)[set_sparse s ! ix v := last (sparse_set_values s)])"
    using j(1) lxs unfolding vals vals' j_def[symmetric]
    by (cases "j < n - 1") (simp_all add: list_update_append list_update_beyond)
  have dist: "distinct xs" "w \<notin> set xs"
    using inv by (auto simp: sparse_set_inv_def vals)
  have wS: "w \<in> set (sparse_set_values s)" by (simp add: vals)
  have vS: "v \<in> set (sparse_set_values s)" using sparse_set_has_values[OF wf has] .
  have xsnth: "xs ! k = set_dense s ! k" if "k < n - 1" for k
    using that by (simp add: xs_def)
  show set': "set (sparse_set_values s') = set (sparse_set_values s) - {v}"
  proof (cases "j < n - 1")
    case True
    then have "xs ! j = v" using xsnth j by simp
    then have "set (xs[j := w]) = insert w (set xs - {v})"
      using set_update_distinct[OF dist(1), of j w] True lxs by simp
    moreover have "v \<noteq> w" using \<open>xs ! j = v\<close> dist(2) True lxs by (metis nth_mem)
    ultimately show ?thesis using dist by (auto simp: vals vals')
  next
    case False
    then have jn: "j = n - 1" using j(1) by simp
    then have "v = w" using j(2) by (simp add: w_def)
    then show ?thesis using beyond[OF False] dist by (auto simp: vals vals')
  qed
  have dist': "distinct (sparse_set_values s')"
  proof (cases "j < n - 1")
    case True
    then show ?thesis using dist lxs by (simp add: vals' distinct_list_update)
  next
    case False
    then show ?thesis using dist beyond by (simp add: vals')
  qed
  have wf': "sparse_set_wf s'"
    using wf by (auto simp: s'_eq sparse_set_wf_def n_def)
  have pt: "ix u < set_capacity s' \<and> set_sparse s' ! ix u < set_size s' \<and>
        set_dense s' ! (set_sparse s' ! ix u) = u" if u': "u \<in> set (sparse_set_values s')" for u
  proof -
    from u' set' have uS: "u \<in> set (sparse_set_values s)" and uv: "u \<noteq> v" by auto
    from inv uS have a: "ix u < set_capacity s" "set_sparse s ! ix u < n"
      "set_dense s ! (set_sparse s ! ix u) = u"
      by (auto simp: sparse_set_inv_def n_def)
    show ?thesis
    proof (cases "u = w")
      case True
      then have "v \<noteq> w" using uv by simp
      then have "j \<noteq> n - 1" using j(2) by (auto simp: w_def)
      then have "j < n - 1" using j(1) by simp
      then show ?thesis using True a len j by (simp add: s'_eq)
    next
      case False
      then have ne: "ix u \<noteq> ix w"
        using sparse_set_inv_index_inj[OF inv uS wS] by blast
      have k1: "set_sparse s ! ix u \<noteq> n - 1" using a(3) False by (auto simp: w_def)
      have k2: "set_sparse s ! ix u \<noteq> j" using a(3) uv j(2) by auto
      show ?thesis using a ne k1 k2 by (simp add: s'_eq)
    qed
  qed
  show "sparse_set_inv ix s'"
    unfolding sparse_set_inv_def using wf' dist' pt by blast
qed


lemma sparse_set_empty_inv: "sparse_set_inv ix sparse_set_empty"
  by (simp add: sparse_set_inv_def sparse_set_wf_def sparse_set_empty_def sparse_set_values_def)



lemma inj_sparse_set_disciplined:
  "inj ix \<Longrightarrow> sparse_set_disciplined p ix ops s"
proof (induction ops arbitrary: s)
  case Nil
  then show ?case by simp
next
  case (Cons a ops)
  then show ?case
    by (cases a) (auto simp: sparse_set_index_free_def dest: injD)
qed

lemmas sparse_set_eval =
  sparse_set_insert_def sparse_set_unordered_erase_def sparse_set_has_def sparse_set_empty_def
  sparse_set_new_capacity_for_def sparse_set_max_size_def sparse_set_reserve_def
  sparse_set_values_def sparse_set_index_free_def entity_id_indexer_def entity_id_index_def
  entity_id_index_mask_value sparse_unsigned_indexer_def roomy_def




section \<open>The sparse map keeps keys and values paired\<close>

subsection \<open>Swap-and-pop on lists\<close>

lemma swap_pop_nth:
  assumes "j < length xs" "i < length xs - 1"
  shows "butlast (xs[j := last xs]) ! i = (if i = j then last xs else xs ! i)"
  using assms by (simp add: nth_butlast nth_list_update)

lemma swap_pop_length: "length (butlast (xs[j := last xs])) = length xs - 1"
  by simp

lemma swap_pop_zip:
  assumes "length ks = length vs"
  shows "zip (butlast (ks[j := last ks])) (butlast (vs[j := last vs]))
           = butlast ((zip ks vs)[j := last (zip ks vs)])"
proof (cases "ks = []")
  case True
  then show ?thesis using assms by simp
next
  case False
  then have "vs \<noteq> []" using assms by auto
  then have l: "last (zip ks vs) = (last ks, last vs)"
    using False assms by (simp add: last_zip)
  show ?thesis
    using assms by (simp add: l butlast_conv_take take_zip zip_update[symmetric])
qed

lemma swap_pop_set:
  assumes "distinct xs" "j < length xs"
  shows "set (butlast (xs[j := last xs])) = set xs - {xs ! j}"
    "distinct (butlast (xs[j := last xs]))"
proof -
  obtain ys w where xs: "xs = ys @ [w]"
    using assms(2) by (cases xs rule: rev_cases) auto
  have d: "distinct ys" "w \<notin> set ys" using assms(1) xs by auto
  show "set (butlast (xs[j := last xs])) = set xs - {xs ! j}"
  proof (cases "j < length ys")
    case True
    then have "set (ys[j := w]) = insert w (set ys - {ys ! j})"
      using set_update_distinct[OF d(1)] by simp
    moreover have "ys ! j \<noteq> w" using d(2) True by (metis nth_mem)
    ultimately show ?thesis using True d by (auto simp: xs list_update_append nth_append)
  next
    case False
    then have "j = length ys" using assms(2) xs by simp
    then show ?thesis using d by (simp add: xs)
  qed
  show "distinct (butlast (xs[j := last xs]))"
  proof (cases "j < length ys")
    case True
    then show ?thesis using d by (simp add: xs list_update_append distinct_list_update)
  next
    case False
    then have "j = length ys" using assms(2) xs by simp
    then show ?thesis using d by (simp add: xs)
  qed
qed

subsection \<open>Lookup in a well-formed sparse map\<close>

lemma sparse_set_has_iff:
  "sparse_set_inv ix s \<Longrightarrow> sparse_set_has ix s v \<longleftrightarrow> v \<in> set (sparse_set_values s)"
  using sparse_set_inv_has sparse_set_has_values by (metis sparse_set_inv_def)

lemma sparse_set_values_nth:
  assumes "sparse_set_wf s" "j < set_size s"
  shows "sparse_set_values s ! j = set_dense s ! j"
  using assms by (simp add: sparse_set_values_def)

lemma sparse_set_position:
  assumes inv: "sparse_set_inv ix s" and j: "j < set_size s"
  shows "set_sparse s ! ix (sparse_set_values s ! j) = j"
proof -
  have wf: "sparse_set_wf s" using inv by (simp add: sparse_set_inv_def)
  let ?v = "sparse_set_values s ! j"
  have len: "length (sparse_set_values s) = set_size s" by (rule sparse_set_values_length[OF wf])
  have mem: "?v \<in> set (sparse_set_values s)" using j len by simp
  then have a: "set_sparse s ! ix ?v < set_size s" "set_dense s ! (set_sparse s ! ix ?v) = ?v"
    using inv by (auto simp: sparse_set_inv_def)
  then have "sparse_set_values s ! (set_sparse s ! ix ?v) = sparse_set_values s ! j"
    using sparse_set_values_nth[OF wf] by simp
  moreover have "distinct (sparse_set_values s)" using inv by (simp add: sparse_set_inv_def)
  ultimately show ?thesis using a(1) j len by (simp add: nth_eq_iff_index_eq)
qed

lemma sparse_map_entries_keys:
  "sparse_map_inv ix m \<Longrightarrow> map fst (sparse_map_entries m) = sparse_set_values (map_keys m)"
  "sparse_map_inv ix m \<Longrightarrow> map snd (sparse_map_entries m) = map_values m"
  "sparse_map_inv ix m \<Longrightarrow> length (sparse_map_entries m) = set_size (map_keys m)"
  by (simp_all add: sparse_map_inv_def sparse_map_entries_def sparse_set_inv_def
      sparse_set_values_length)

lemma sparse_map_find_value_entries:
  assumes inv: "sparse_map_inv ix m"
  shows "sparse_map_find_value ix m k = map_of (sparse_map_entries m) k"
proof -
  have sinv: "sparse_set_inv ix (map_keys m)" and lv: "length (map_values m) = set_size (map_keys m)"
    using inv by (auto simp: sparse_map_inv_def)
  have wf: "sparse_set_wf (map_keys m)" using sinv by (simp add: sparse_set_inv_def)
  have lk: "length (sparse_set_values (map_keys m)) = set_size (map_keys m)"
    by (rule sparse_set_values_length[OF wf])
  have dk: "distinct (map fst (sparse_map_entries m))"
    using sinv sparse_map_entries_keys(1)[OF inv] by (simp add: sparse_set_inv_def)
  show ?thesis
  proof (cases "sparse_set_has ix (map_keys m) k")
    case True
    let ?j = "set_sparse (map_keys m) ! ix k"
    from True have j: "?j < set_size (map_keys m)" "set_dense (map_keys m) ! ?j = k"
      by (auto simp: sparse_set_has_def Let_def)
    then have "sparse_map_entries m ! ?j = (k, map_values m ! ?j)"
      using lk lv sparse_set_values_nth[OF wf j(1)] by (simp add: sparse_map_entries_def)
    moreover have "?j < length (sparse_map_entries m)"
      using j lk lv by (simp add: sparse_map_entries_def)
    ultimately have "(k, map_values m ! ?j) \<in> set (sparse_map_entries m)"
      by (metis nth_mem)
    then have "map_of (sparse_map_entries m) k = Some (map_values m ! ?j)"
      using dk by simp
    then show ?thesis
      using True by (simp add: sparse_map_find_value_def sparse_set_find_index_def)
  next
    case False
    then have "k \<notin> set (sparse_set_values (map_keys m))"
      using sparse_set_has_iff[OF sinv] by simp
    then have "k \<notin> set (map fst (sparse_map_entries m))"
      using sparse_map_entries_keys(1)[OF inv] by simp
    then have "map_of (sparse_map_entries m) k = None"
      by (simp add: map_of_eq_None_iff)
    then show ?thesis
      using False by (simp add: sparse_map_find_value_def sparse_set_find_index_def)
  qed
qed

lemma sparse_map_get_value_find:
  "sparse_map_get_value ix m k =
     (case sparse_map_find_value ix m k of Some v \<Rightarrow> Inr v | None \<Rightarrow> Inl Value_not_found)"
  by (simp add: sparse_map_get_value_def sparse_map_find_value_def sparse_set_get_index_def
      split: option.splits)

lemma sparse_map_has_find:
  "sparse_map_has ix m k \<longleftrightarrow> sparse_map_find_value ix m k \<noteq> None"
  by (simp add: sparse_map_has_def sparse_map_find_value_def sparse_set_find_index_def)

lemma option_eqI: "(\<And>v. a = Some v \<longleftrightarrow> b = Some v) \<Longrightarrow> a = b"
  by (cases a; cases b; auto)

lemma sparse_map_find_value_Some_iff:
  assumes "sparse_map_inv ix m"
  shows "sparse_map_find_value ix m k = Some v \<longleftrightarrow> (k, v) \<in> set (sparse_map_entries m)"
proof -
  have "distinct (map fst (sparse_map_entries m))"
    using assms sparse_map_entries_keys(1)[OF assms]
    by (simp add: sparse_map_inv_def sparse_set_inv_def)
  then show ?thesis
    by (simp add: sparse_map_find_value_entries[OF assms])
qed

lemma sparse_map_emplace_insert: "sparse_map_emplace p ix m k v = sparse_map_insert p ix m k v"
  by (simp add: sparse_map_emplace_def sparse_map_insert_def)

lemma sparse_set_insert_absent_result:
  "\<not> sparse_set_has ix s v \<Longrightarrow> fst (sparse_set_insert p ix s v) \<noteq> Inr False"
  by (auto simp: sparse_set_insert_def Let_def split: sum.splits)

lemma sparse_map_insert_not_new:
  assumes "fst (sparse_map_insert p ix m k v) \<noteq> Inr True"
  shows "snd (sparse_map_insert p ix m k v) = m"
proof (cases "sparse_set_has ix (map_keys m) k \<or> \<not> push_ok p (length (map_values m))")
  case True
  then show ?thesis by (auto simp: sparse_map_insert_def)
next
  case False
  obtain res ks where r: "sparse_set_insert p ix (map_keys m) k = (res, ks)"
    by (cases "sparse_set_insert p ix (map_keys m) k")
  from assms False r obtain e where e: "res = Inl e"
    using sparse_set_insert_absent_result[of ix "map_keys m" k p]
    by (cases res) (auto simp: sparse_map_insert_def Let_def)
  then have "ks = map_keys m"
    using sparse_set_insert_failed[of p ix "map_keys m" k e] r by simp
  then show ?thesis using False r e by (simp add: sparse_map_insert_def Let_def)
qed

lemma sparse_map_insert_errors:
  "sparse_map_insert p ix m k v = (Inl e, m') \<Longrightarrow> e = Length_error \<or> e = Bad_alloc"
  by (auto simp: sparse_map_insert_def Let_def split: if_splits prod.splits sum.splits
      dest: sparse_set_insert_errors)

lemma sparse_map_insert_present:
  "sparse_map_has ix m k \<Longrightarrow> sparse_map_insert p ix m k v = (Inr False, m)"
  by (simp add: sparse_map_insert_def sparse_map_has_def)

lemma sparse_map_insert_False:
  "sparse_map_insert p ix m k v = (Inr False, m') \<Longrightarrow> sparse_map_has ix m k \<and> m' = m"
  using sparse_set_insert_absent_result[of ix "map_keys m" k p]
  by (auto simp: sparse_map_insert_def sparse_map_has_def Let_def
      split: if_splits prod.splits sum.splits)

lemma sparse_map_insert_new:
  assumes r: "sparse_map_insert p ix m k v = (Inr True, m')"
    and inv: "sparse_map_inv ix m"
    and free: "sparse_set_index_free ix (map_keys m) k"
  shows "sparse_map_inv ix m'"
    "sparse_map_entries m' = sparse_map_entries m @ [(k, v)]"
    "k \<notin> set (sparse_set_values (map_keys m))"
    "map_values m' = map_values m @ [v]"
    "sparse_set_values (map_keys m') = sparse_set_values (map_keys m) @ [k]"
proof -
  have sinv: "sparse_set_inv ix (map_keys m)" and lv: "length (map_values m) = set_size (map_keys m)"
    using inv by (auto simp: sparse_map_inv_def)
  from r obtain ks where ks: "sparse_set_insert p ix (map_keys m) k = (Inr True, ks)"
    and m': "m' = \<lparr>map_keys = ks, map_values = map_values m @ [v]\<rparr>"
    by (auto simp: sparse_map_insert_def Let_def split: if_splits prod.splits sum.splits)
  note n = sparse_set_insert_new[OF ks sinv free[unfolded sparse_set_index_free_def]]
  show "k \<notin> set (sparse_set_values (map_keys m))" by (rule n(3))
  show "map_values m' = map_values m @ [v]" by (simp add: m')
  show kv: "sparse_set_values (map_keys m') = sparse_set_values (map_keys m) @ [k]"
    using n(2) by (simp add: m')
  have wf: "sparse_set_wf (map_keys m)" "sparse_set_wf ks"
    using sinv n(1) by (auto simp: sparse_set_inv_def)
  have lk: "length (sparse_set_values (map_keys m)) = set_size (map_keys m)"
    by (rule sparse_set_values_length[OF wf(1)])
  have "set_size ks = length (sparse_set_values ks)"
    using sparse_set_values_length[OF wf(2)] by simp
  then have "set_size ks = set_size (map_keys m) + 1" using n(2) lk by simp
  then show "sparse_map_inv ix m'" using n(1) lv by (simp add: sparse_map_inv_def m')
  show "sparse_map_entries m' = sparse_map_entries m @ [(k, v)]"
    using lk lv n(2) by (simp add: sparse_map_entries_def m')
qed

lemma sparse_map_unordered_erase_absent:
  "\<not> sparse_map_has ix m k \<Longrightarrow> sparse_map_unordered_erase ix m k = (Inr False, m)"
  by (simp add: sparse_map_unordered_erase_def sparse_map_has_def)

lemma sparse_map_unordered_erase_no_throw:
  "fst (sparse_map_unordered_erase ix m k) \<noteq> Inl e"
  by (simp add: sparse_map_unordered_erase_def sparse_set_get_index_def sparse_set_find_index_def)

lemma sparse_map_unordered_erase_present:
  assumes inv: "sparse_map_inv ix m" and has: "sparse_map_has ix m k"
  defines "m' \<equiv> snd (sparse_map_unordered_erase ix m k)"
  shows "fst (sparse_map_unordered_erase ix m k) = Inr True"
    "sparse_map_inv ix m'"
    "set (sparse_map_entries m') = {kv \<in> set (sparse_map_entries m). fst kv \<noteq> k}"
    "set (sparse_set_values (map_keys m')) = set (sparse_set_values (map_keys m)) - {k}"
proof -
  have sinv: "sparse_set_inv ix (map_keys m)" and lv: "length (map_values m) = set_size (map_keys m)"
    using inv by (auto simp: sparse_map_inv_def)
  have h: "sparse_set_has ix (map_keys m) k" using has by (simp add: sparse_map_has_def)
  define j where "j = set_sparse (map_keys m) ! ix k"
  define ks where "ks = snd (sparse_set_unordered_erase ix (map_keys m) k)"
  have m'_eq: "m' = \<lparr>map_keys = ks, map_values = butlast ((map_values m)[j := last (map_values m)])\<rparr>"
    using h by (simp add: m'_def sparse_map_unordered_erase_def sparse_set_get_index_def
        sparse_set_find_index_def ks_def j_def)
  show "fst (sparse_map_unordered_erase ix m k) = Inr True"
    using h by (simp add: sparse_map_unordered_erase_def sparse_set_get_index_def
        sparse_set_find_index_def)
  note e = sparse_set_unordered_erase_present[OF sinv h, folded ks_def j_def]
  show "sparse_map_inv ix m'"
    using e(2) e(6) lv by (simp add: sparse_map_inv_def m'_eq)
  show "set (sparse_set_values (map_keys m')) = set (sparse_set_values (map_keys m)) - {k}"
    using e(4) by (simp add: m'_eq)
  have wf: "sparse_set_wf (map_keys m)" using sinv by (simp add: sparse_set_inv_def)
  let ?K = "sparse_set_values (map_keys m)"
  have lk: "length ?K = set_size (map_keys m)" by (rule sparse_set_values_length[OF wf])
  have jlt: "j < set_size (map_keys m)" and dj: "set_dense (map_keys m) ! j = k"
    using h by (auto simp: sparse_set_has_def Let_def j_def)
  have Kj: "?K ! j = k" using sparse_set_values_nth[OF wf jlt] dj by simp
  have ent: "sparse_map_entries m' =
      butlast ((sparse_map_entries m)[j := last (sparse_map_entries m)])"
    using e(3) lk lv by (simp add: sparse_map_entries_def m'_eq swap_pop_zip)
  have dk: "distinct (map fst (sparse_map_entries m))"
    using sinv sparse_map_entries_keys(1)[OF inv] by (simp add: sparse_set_inv_def)
  then have de: "distinct (sparse_map_entries m)" by (simp add: distinct_map)
  have le: "length (sparse_map_entries m) = set_size (map_keys m)"
    by (rule sparse_map_entries_keys(3)[OF inv])
  have ej: "fst (sparse_map_entries m ! j) = k"
    using Kj jlt lk lv by (simp add: sparse_map_entries_def)
  have "set (sparse_map_entries m') = set (sparse_map_entries m) - {sparse_map_entries m ! j}"
    unfolding ent using swap_pop_set(1)[OF de] jlt le by simp
  also have "\<dots> = {kv \<in> set (sparse_map_entries m). fst kv \<noteq> k}"
  proof (intro set_eqI iffI)
    fix kv assume a: "kv \<in> set (sparse_map_entries m) - {sparse_map_entries m ! j}"
    have "fst kv \<noteq> k"
    proof
      assume "fst kv = k"
      then have "fst kv = fst (sparse_map_entries m ! j)" using ej by simp
      moreover have "sparse_map_entries m ! j \<in> set (sparse_map_entries m)"
        using jlt le by simp
      ultimately have "kv = sparse_map_entries m ! j"
        using dk a by (metis DiffD1 eq_key_imp_eq_value prod.collapse)
      then show False using a by simp
    qed
    then show "kv \<in> {kv \<in> set (sparse_map_entries m). fst kv \<noteq> k}" using a by simp
  next
    fix kv assume "kv \<in> {kv \<in> set (sparse_map_entries m). fst kv \<noteq> k}"
    then show "kv \<in> set (sparse_map_entries m) - {sparse_map_entries m ! j}"
      using ej by auto
  qed
  finally show "set (sparse_map_entries m') = {kv \<in> set (sparse_map_entries m). fst kv \<noteq> k}" .
qed

lemma remove_key_set:
  assumes "distinct (map fst xs)" "j < length xs" "fst (xs ! j) = k"
  shows "set xs - {xs ! j} = {kv \<in> set xs. fst kv \<noteq> k}"
proof (intro set_eqI iffI)
  fix kv assume a: "kv \<in> set xs - {xs ! j}"
  have "fst kv \<noteq> k"
  proof
    assume "fst kv = k"
    then have "fst kv = fst (xs ! j)" using assms(3) by simp
    moreover have "xs ! j \<in> set xs" using assms(2) by simp
    ultimately have "kv = xs ! j"
      using assms(1) a by (metis DiffD1 eq_key_imp_eq_value prod.collapse)
    then show False using a by simp
  qed
  then show "kv \<in> {kv \<in> set xs. fst kv \<noteq> k}" using a by simp
next
  fix kv assume "kv \<in> {kv \<in> set xs. fst kv \<noteq> k}"
  then show "kv \<in> set xs - {xs ! j}" using assms(3) by auto
qed

lemma sparse_map_get_value_assign_absent:
  "\<not> sparse_map_has ix m k \<Longrightarrow> sparse_map_get_value_assign ix m k v = (Inl Value_not_found, m)"
  by (simp add: sparse_map_get_value_assign_def sparse_map_has_def sparse_set_get_index_def
      sparse_set_find_index_def)

lemma sparse_map_get_value_assign_present:
  fixes v :: 'v
  assumes inv: "sparse_map_inv ix m" and has: "sparse_map_has ix m k"
  defines "m' \<equiv> snd (sparse_map_get_value_assign ix m k v)"
  shows "fst (sparse_map_get_value_assign ix m k v) = Inr ()"
    "sparse_map_inv ix m'"
    "map_keys m' = map_keys m"
    "set (sparse_map_entries m') = insert (k, v) {kv \<in> set (sparse_map_entries m). fst kv \<noteq> k}"
    "set (map_values m') \<subseteq> insert v (set (map_values m))"
proof -
  have sinv: "sparse_set_inv ix (map_keys m)" and lv: "length (map_values m) = set_size (map_keys m)"
    using inv by (auto simp: sparse_map_inv_def)
  have h: "sparse_set_has ix (map_keys m) k" using has by (simp add: sparse_map_has_def)
  define j where "j = set_sparse (map_keys m) ! ix k"
  have m'_eq: "m' = m\<lparr>map_values := (map_values m)[j := v]\<rparr>"
    using h by (simp add: m'_def sparse_map_get_value_assign_def sparse_set_get_index_def
        sparse_set_find_index_def j_def)
  show "fst (sparse_map_get_value_assign ix m k v) = Inr ()"
    using h by (simp add: sparse_map_get_value_assign_def sparse_set_get_index_def
        sparse_set_find_index_def)
  show "map_keys m' = map_keys m" by (simp add: m'_eq)
  show "sparse_map_inv ix m'" using inv by (simp add: m'_eq sparse_map_inv_def)
  show "set (map_values m') \<subseteq> insert v (set (map_values m))"
    by (simp add: m'_eq set_update_subset_insert)
  have wf: "sparse_set_wf (map_keys m)" using sinv by (simp add: sparse_set_inv_def)
  let ?K = "sparse_set_values (map_keys m)"
  have lk: "length ?K = set_size (map_keys m)" by (rule sparse_set_values_length[OF wf])
  have jlt: "j < set_size (map_keys m)" and dj: "set_dense (map_keys m) ! j = k"
    using h by (auto simp: sparse_set_has_def Let_def j_def)
  have Kj: "?K ! j = k" using sparse_set_values_nth[OF wf jlt] dj by simp
  have "?K[j := k] = ?K" using Kj by (metis list_update_id)
  then have ent: "sparse_map_entries m' = (sparse_map_entries m)[j := (k, v)]"
    by (simp add: sparse_map_entries_def m'_eq zip_update[symmetric])
  have dk: "distinct (map fst (sparse_map_entries m))"
    using sinv sparse_map_entries_keys(1)[OF inv] by (simp add: sparse_set_inv_def)
  then have de: "distinct (sparse_map_entries m)" by (simp add: distinct_map)
  have le: "length (sparse_map_entries m) = set_size (map_keys m)"
    by (rule sparse_map_entries_keys(3)[OF inv])
  have ej: "fst (sparse_map_entries m ! j) = k"
    using Kj jlt lk lv by (simp add: sparse_map_entries_def)
  have "set (sparse_map_entries m') =
      insert (k, v) (set (sparse_map_entries m) - {sparse_map_entries m ! j})"
    unfolding ent using set_update_distinct[OF de] jlt le by simp
  then show "set (sparse_map_entries m') =
      insert (k, v) {kv \<in> set (sparse_map_entries m). fst kv \<noteq> k}"
    using remove_key_set[OF dk _ ej] jlt le by simp
qed





lemma sparse_map_empty_inv: "sparse_map_inv ix sparse_map_empty"
  by (simp add: sparse_map_inv_def sparse_map_empty_def sparse_set_empty_inv)
    (simp add: sparse_set_empty_def)


lemma sparse_map_insert_paired:
  fixes p :: platform and v :: 'v
  assumes inv: "sparse_map_inv ix m" and f: "\<forall>k. sparse_map_find_value ix m k = f k"
    and free: "sparse_set_index_free ix (map_keys m) k"
  defines "m' \<equiv> snd (sparse_map_insert p ix m k v)"
  shows "sparse_map_inv ix m'"
    "\<forall>k'. sparse_map_find_value ix m' k' =
        (if fst (sparse_map_insert p ix m k v) = Inr True then f(k \<mapsto> v) else f) k'"
proof -
  show "sparse_map_inv ix m'"
  proof (cases "fst (sparse_map_insert p ix m k v) = Inr True")
    case True
    then have "sparse_map_insert p ix m k v = (Inr True, m')"
      by (simp add: m'_def prod_eq_iff)
    then show ?thesis using sparse_map_insert_new(1)[OF _ inv free] by simp
  next
    case False
    then show ?thesis using sparse_map_insert_not_new[OF False] inv by (simp add: m'_def)
  qed
  show "\<forall>k'. sparse_map_find_value ix m' k' =
        (if fst (sparse_map_insert p ix m k v) = Inr True then f(k \<mapsto> v) else f) k'"
  proof (cases "fst (sparse_map_insert p ix m k v) = Inr True")
    case True
    then have r: "sparse_map_insert p ix m k v = (Inr True, m')"
      by (simp add: m'_def prod_eq_iff)
    note n = sparse_map_insert_new[OF r inv free]
    have nk: "(k, x) \<notin> set (sparse_map_entries m)" for x
      using n(3) sparse_map_entries_keys(1)[OF inv] by (metis fst_conv image_eqI set_map)
    have "sparse_map_find_value ix m' k' = Some x \<longleftrightarrow> (f(k \<mapsto> v)) k' = Some x" for k' x
      using f[rule_format, of k', symmetric] nk
      by (auto simp: sparse_map_find_value_Some_iff[OF n(1)] n(2)
          sparse_map_find_value_Some_iff[OF inv])
    then have "sparse_map_find_value ix m' k' = (f(k \<mapsto> v)) k'" for k'
      by (rule option_eqI)
    then show ?thesis using True by simp
  next
    case False
    then show ?thesis using sparse_map_insert_not_new[OF False] f by (simp add: m'_def)
  qed
qed

lemma sparse_map_unordered_erase_paired:
  fixes k :: 'k
  assumes inv: "sparse_map_inv ix m"
  defines "m' \<equiv> snd (sparse_map_unordered_erase ix m k)"
  shows "sparse_map_inv ix m'"
    "sparse_map_find_value ix m' k' = (if k' = k then None else sparse_map_find_value ix m k')"
proof -
  show i': "sparse_map_inv ix m'"
    using inv sparse_map_unordered_erase_present(2)[OF inv]
    by (cases "sparse_map_has ix m k") (simp_all add: m'_def sparse_map_unordered_erase_absent)
  show "sparse_map_find_value ix m' k' = (if k' = k then None else sparse_map_find_value ix m k')"
  proof (cases "sparse_map_has ix m k")
    case True
    have "sparse_map_find_value ix m' k' = Some x \<longleftrightarrow>
        (if k' = k then None else sparse_map_find_value ix m k') = Some x" for x
      using sparse_map_unordered_erase_present(3)[OF inv True, folded m'_def]
      by (simp add: sparse_map_find_value_Some_iff[OF i'] sparse_map_find_value_Some_iff[OF inv])
    then show ?thesis by (rule option_eqI)
  next
    case False
    then show ?thesis
      by (auto simp: m'_def sparse_map_unordered_erase_absent sparse_map_has_find)
  qed
qed

lemma sparse_map_get_value_assign_paired:
  fixes k :: 'k and v :: 'v
  assumes inv: "sparse_map_inv ix m"
  defines "m' \<equiv> snd (sparse_map_get_value_assign ix m k v)"
  shows "sparse_map_inv ix m'"
    "sparse_map_find_value ix m' k' =
       (if k' = k \<and> sparse_map_has ix m k then Some v else sparse_map_find_value ix m k')"
proof -
  show i': "sparse_map_inv ix m'"
    using inv sparse_map_get_value_assign_present(2)[OF inv]
    by (cases "sparse_map_has ix m k") (simp_all add: m'_def sparse_map_get_value_assign_absent)
  show "sparse_map_find_value ix m' k' =
       (if k' = k \<and> sparse_map_has ix m k then Some v else sparse_map_find_value ix m k')"
  proof (cases "sparse_map_has ix m k")
    case True
    have "sparse_map_find_value ix m' k' = Some x \<longleftrightarrow>
        (if k' = k then Some v else sparse_map_find_value ix m k') = Some x" for x
      using sparse_map_get_value_assign_present(4)[OF inv True, of v, folded m'_def]
      by (auto simp: sparse_map_find_value_Some_iff[OF i'] sparse_map_find_value_Some_iff[OF inv])
    then show ?thesis using True option_eqI by metis
  next
    case False
    then show ?thesis
      by (simp add: m'_def sparse_map_get_value_assign_absent)
  qed
qed







lemma sparse_map_insert_rollback:
  "fst (sparse_map_insert p ix m k v) = Inl e \<Longrightarrow> snd (sparse_map_insert p ix m k v) = m"
  by (rule sparse_map_insert_not_new) simp

section \<open>The registry keeps its invariant\<close>

subsection \<open>Creating entities\<close>

lemma entity_id_indexer_eq_iff:
  "entity_id_indexer u = entity_id_indexer v \<longleftrightarrow> entity_id_index u = entity_id_index v"
  by (simp add: entity_id_indexer_def word_unat_eq_iff)

lemma registry_empty_inv: "registry_inv registry_empty"
  by (simp add: registry_inv_def registry_empty_def sparse_set_empty_inv sparse_map_empty_inv)
     (simp add: sparse_map_empty_def sparse_set_empty_def sparse_set_values_def)

lemma registry_inv_alive_iff:
  "registry_inv r \<Longrightarrow> is_entity_alive r e \<longleftrightarrow> e \<in> set (sparse_set_values (entity_ids r))"
  by (simp add: is_entity_alive_def is_entity_alive_impl_def registry_inv_def sparse_set_has_iff)

lemma distinct_map_butlast_last:
  assumes "distinct (map g xs)" "xs \<noteq> []" "x \<in> set (butlast xs)"
  shows "g x \<noteq> g (last xs)"
proof -
  have "xs = butlast xs @ [last xs]" using assms(2) by simp
  then have "distinct (map g (butlast xs) @ [g (last xs)])"
    using assms(1) by (metis list.simps(8,9) map_append)
  then have "g (last xs) \<notin> g ` set (butlast xs)" by simp
  then show ?thesis using assms(3) by (metis imageI)
qed

lemma create_entity_success:
  assumes inv: "registry_inv r" and res: "create_entity p r = (Inr e, r')"
  shows "sparse_set_values (entity_ids r') = sparse_set_values (entity_ids r) @ [e]"
    "e \<notin> set (sparse_set_values (entity_ids r))"
    "storages r' = storages r"
    "sparse_set_inv entity_id_indexer (entity_ids r')"
    "free_entity_ids r \<noteq> [] \<Longrightarrow>
       e = entity_id_join (entity_id_index (last (free_entity_ids r)))
                          (entity_id_version (last (free_entity_ids r)) + 1) \<and>
       free_entity_ids r' = butlast (free_entity_ids r) \<and> last_entity_id r' = last_entity_id r"
    "free_entity_ids r = [] \<Longrightarrow>
       last_entity_id r < entity_id_index_mask \<and> e = last_entity_id r + 1 \<and>
       free_entity_ids r' = [] \<and> last_entity_id r' = last_entity_id r + 1"
proof -
  let ?L = "sparse_set_values (entity_ids r)"
  have sinv: "sparse_set_inv entity_id_indexer (entity_ids r)"
    using inv by (simp add: registry_inv_def)
  have fl: "\<forall>f \<in> set (free_entity_ids r). \<forall>l \<in> set ?L. entity_id_index f \<noteq> entity_id_index l"
    and bd: "\<forall>l \<in> set ?L. entity_id_index l \<le> last_entity_id r"
    using inv by (auto simp: registry_inv_def)
  have key: "\<And>s b. sparse_set_insert p entity_id_indexer (entity_ids r) e = (Inr b, s) \<Longrightarrow>
      \<forall>u \<in> set ?L. entity_id_index u \<noteq> entity_id_index e \<Longrightarrow>
      sparse_set_values s = ?L @ [e] \<and> e \<notin> set ?L \<and> sparse_set_inv entity_id_indexer s"
  proof -
    fix s b
    assume ins: "sparse_set_insert p entity_id_indexer (entity_ids r) e = (Inr b, s)"
      and fresh: "\<forall>u \<in> set ?L. entity_id_index u \<noteq> entity_id_index e"
    have notin: "e \<notin> set ?L" using fresh by auto
    then have "\<not> sparse_set_has entity_id_indexer (entity_ids r) e"
      using sparse_set_has_iff[OF sinv] by simp
    then have "b" using ins sparse_set_insert_absent_result[of entity_id_indexer "entity_ids r" e p]
      by auto
    then have ins': "sparse_set_insert p entity_id_indexer (entity_ids r) e = (Inr True, s)"
      using ins by simp
    have free: "\<forall>u \<in> set ?L. entity_id_indexer u = entity_id_indexer e \<longrightarrow> u = e"
      using fresh by (simp add: entity_id_indexer_eq_iff)
    from sparse_set_insert_new[OF ins' sinv free]
    show "sparse_set_values s = ?L @ [e] \<and> e \<notin> set ?L \<and> sparse_set_inv entity_id_indexer s"
      by simp
  qed
  have main: "sparse_set_values (entity_ids r') = ?L @ [e] \<and> e \<notin> set ?L \<and>
      sparse_set_inv entity_id_indexer (entity_ids r') \<and> storages r' = storages r \<and>
      (free_entity_ids r \<noteq> [] \<longrightarrow>
       e = entity_id_join (entity_id_index (last (free_entity_ids r)))
                          (entity_id_version (last (free_entity_ids r)) + 1) \<and>
       free_entity_ids r' = butlast (free_entity_ids r) \<and> last_entity_id r' = last_entity_id r) \<and>
      (free_entity_ids r = [] \<longrightarrow>
       last_entity_id r < entity_id_index_mask \<and> e = last_entity_id r + 1 \<and>
       free_entity_ids r' = [] \<and> last_entity_id r' = last_entity_id r + 1)"
  proof (cases "free_entity_ids r = []")
    case False
    define f where "f = last (free_entity_ids r)"
    have fin: "f \<in> set (free_entity_ids r)" using False by (simp add: f_def)
    from res False obtain b s where
      ins: "sparse_set_insert p entity_id_indexer (entity_ids r) e = (Inr b, s)"
      and e: "e = entity_id_join (entity_id_index f) (entity_id_version f + 1)"
      and r': "r' = r\<lparr>entity_ids := s, free_entity_ids := butlast (free_entity_ids r)\<rparr>"
      by (auto simp: create_entity_def Let_def f_def split: prod.splits sum.splits)
    have "entity_id_index e = entity_id_index f" by (simp add: e entity_id_index_join)
    then have "\<forall>u \<in> set ?L. entity_id_index u \<noteq> entity_id_index e"
      using fl fin by metis
    from key[OF ins this] show ?thesis using False e by (simp add: r' f_def)
  next
    case True
    from res True have lt: "last_entity_id r < entity_id_index_mask"
      by (auto simp: create_entity_def Let_def split: if_splits)
    from res True lt obtain b s where
      ins: "sparse_set_insert p entity_id_indexer (entity_ids r) e = (Inr b, s)"
      and e: "e = last_entity_id r + 1"
      and r': "r' = r\<lparr>last_entity_id := last_entity_id r + 1, entity_ids := s\<rparr>"
      by (auto simp: create_entity_def Let_def split: prod.splits sum.splits)
    note fi = fresh_index[OF lt]
    have "entity_id_index u \<noteq> entity_id_index e" if "u \<in> set ?L" for u
    proof -
      have "unat (entity_id_index u) \<le> unat (last_entity_id r)"
        using bd that by (simp add: word_le_nat_alt)
      then have "unat (entity_id_index u) \<noteq> unat (entity_id_index e)"
        using fi(1,3) by (simp add: e)
      then show ?thesis by auto
    qed
    then have "\<forall>u \<in> set ?L. entity_id_index u \<noteq> entity_id_index e" by blast
    from key[OF ins this] show ?thesis using True e lt by (simp add: r')
  qed
  then show "sparse_set_values (entity_ids r') = sparse_set_values (entity_ids r) @ [e]"
    "e \<notin> set (sparse_set_values (entity_ids r))"
    "storages r' = storages r"
    "sparse_set_inv entity_id_indexer (entity_ids r')"
    "free_entity_ids r \<noteq> [] \<Longrightarrow>
       e = entity_id_join (entity_id_index (last (free_entity_ids r)))
                          (entity_id_version (last (free_entity_ids r)) + 1) \<and>
       free_entity_ids r' = butlast (free_entity_ids r) \<and> last_entity_id r' = last_entity_id r"
    "free_entity_ids r = [] \<Longrightarrow>
       last_entity_id r < entity_id_index_mask \<and> e = last_entity_id r + 1 \<and>
       free_entity_ids r' = [] \<and> last_entity_id r' = last_entity_id r + 1"
    by blast+
qed

lemma create_entity_failed_last:
  assumes "create_entity p r = (Inl e, r')"
  shows "r' = r \<or> (r' = r\<lparr>last_entity_id := last_entity_id r + 1\<rparr> \<and>
                     last_entity_id r < entity_id_index_mask)"
proof -
  have ins: "\<And>s v x t. sparse_set_insert p entity_id_indexer s v = (Inl x, t) \<Longrightarrow> t = s"
    using sparse_set_insert_failed by (metis fst_conv snd_conv)
  show ?thesis
    using assms
    by (auto simp: create_entity_def Let_def split: if_splits prod.splits sum.splits dest: ins)
qed

lemma word_le_succ:
  assumes "l < entity_id_index_mask" "(i::entity_id) \<le> l"
  shows "i \<le> l + 1"
  using assms fresh_index(3)[OF assms(1)] by (simp add: word_le_nat_alt)

lemma registry_inv_bump:
  assumes inv: "registry_inv r" and lt: "last_entity_id r < entity_id_index_mask"
  shows "registry_inv (r\<lparr>last_entity_id := last_entity_id r + 1\<rparr>)"
  using inv fresh_index(4)[OF lt] word_le_succ[OF lt]
  by (auto simp: registry_inv_def)

lemma create_entity_inv:
  assumes inv: "registry_inv r"
  shows "registry_inv (snd (create_entity p r))"
proof (cases "create_entity p r")
  case (Pair res r')
  show ?thesis
  proof (cases res)
    case (Inl e)
    then show ?thesis
      using create_entity_failed_last[of p r e r'] Pair inv registry_inv_bump[OF inv] by auto
  next
    case (Inr e)
    then have res: "create_entity p r = (Inr e, r')" using Pair by simp
    note cs = create_entity_success[OF inv res]
    let ?L = "sparse_set_values (entity_ids r)"
    have fl: "\<forall>f \<in> set (free_entity_ids r). \<forall>l \<in> set ?L. entity_id_index f \<noteq> entity_id_index l"
      and bd: "\<forall>i \<in> set (free_entity_ids r) \<union> set ?L. entity_id_index i \<le> last_entity_id r"
      and df: "distinct (map entity_id_index (free_entity_ids r))"
      and lm: "last_entity_id r \<le> entity_id_index_mask"
      and st: "\<forall>st \<in> set (map_values (storages r)).
        component_storage_inv st \<and> set (component_storage_keys st) \<subseteq> set ?L"
      and sm: "sparse_map_inv sparse_unsigned_indexer (storages r)"
      using inv by (auto simp: registry_inv_def)
    have c3: "\<forall>st \<in> set (map_values (storages r')).
        component_storage_inv st \<and>
        set (component_storage_keys st) \<subseteq> set (sparse_set_values (entity_ids r'))"
      using st cs(1,3) by auto
    have rest: "distinct (map entity_id_index (free_entity_ids r')) \<and>
     (\<forall>f \<in> set (free_entity_ids r'). \<forall>l \<in> set (sparse_set_values (entity_ids r')).
        entity_id_index f \<noteq> entity_id_index l) \<and>
     (\<forall>i \<in> set (free_entity_ids r') \<union> set (sparse_set_values (entity_ids r')).
        entity_id_index i \<le> last_entity_id r') \<and>
     last_entity_id r' \<le> entity_id_index_mask"
    proof (cases "free_entity_ids r = []")
      case False
      define f where "f = last (free_entity_ids r)"
      have fin: "f \<in> set (free_entity_ids r)" using False by (simp add: f_def)
      from cs(5)[OF False] have e: "entity_id_index e = entity_id_index f"
        and fr: "free_entity_ids r' = butlast (free_entity_ids r)"
        and la: "last_entity_id r' = last_entity_id r"
        by (simp_all add: f_def entity_id_index_join)
      have sub: "set (butlast (free_entity_ids r)) \<subseteq> set (free_entity_ids r)"
        by (auto dest: in_set_butlastD)
      have a: "distinct (map entity_id_index (free_entity_ids r'))"
        using df by (simp add: fr map_butlast distinct_butlast)
      have b: "entity_id_index g \<noteq> entity_id_index l"
        if "g \<in> set (free_entity_ids r')" "l \<in> set (sparse_set_values (entity_ids r'))" for g l
      proof (cases "l = e")
        case True
        then show ?thesis
          using distinct_map_butlast_last[OF df False, of g] that(1) e by (simp add: fr f_def)
      next
        case False
        then have "l \<in> set ?L" using that(2) cs(1) by simp
        moreover have "g \<in> set (free_entity_ids r)" using that(1) sub by (auto simp: fr)
        ultimately show ?thesis using fl by blast
      qed
      have c: "entity_id_index i \<le> last_entity_id r'"
        if "i \<in> set (free_entity_ids r') \<union> set (sparse_set_values (entity_ids r'))" for i
      proof (cases "i = e")
        case True
        then show ?thesis using bd fin e la by simp
      next
        case False
        then have "i \<in> set (free_entity_ids r) \<union> set ?L"
          using that sub cs(1) by (auto simp: fr)
        then show ?thesis using bd la by simp
      qed
      have d: "last_entity_id r' \<le> entity_id_index_mask" using lm la by simp
      show ?thesis using a b c d by (intro conjI ballI) auto
    next
      case True
      from cs(6)[OF True] have lt: "last_entity_id r < entity_id_index_mask"
        and e: "e = last_entity_id r + 1" and fr: "free_entity_ids r' = []"
        and la: "last_entity_id r' = last_entity_id r + 1"
        by simp_all
      note fi = fresh_index[OF lt]
      have c: "entity_id_index i \<le> last_entity_id r'"
        if "i \<in> set (sparse_set_values (entity_ids r'))" for i
      proof (cases "i = e")
        case True
        then show ?thesis using fi(1) by (simp add: e la)
      next
        case False
        then have "i \<in> set ?L" using that cs(1) by simp
        then show ?thesis using bd word_le_succ[OF lt] by (simp add: la)
      qed
      show ?thesis using c fi(4) by (simp add: fr la)
    qed
    have "registry_inv r'"
      unfolding registry_inv_def using cs(4) sm cs(3) c3 rest by simp
    then show ?thesis using Pair by simp
  qed
qed

subsection \<open>The storage table and the storages\<close>

lemma sparse_unsigned_index_free:
  "sparse_set_index_free sparse_unsigned_indexer s k"
  by (simp add: sparse_set_index_free_def sparse_unsigned_indexer_def word_unat_eq_iff)

lemma find_storage_find_value:
  "find_storage r t = sparse_map_find_value sparse_unsigned_indexer (storages r) t"
  by (simp add: find_storage_def sparse_map_has_def sparse_map_get_value_def
      sparse_map_find_value_def sparse_set_get_index_def sparse_set_find_index_def)

lemma sparse_map_find_value_mem:
  assumes "sparse_map_inv ix m" "sparse_map_find_value ix m k = Some v"
  shows "v \<in> set (map_values m)" "k \<in> set (sparse_set_values (map_keys m))"
proof -
  have kv: "(k, v) \<in> set (sparse_map_entries m)"
    using assms by (simp add: sparse_map_find_value_Some_iff)
  then have "v \<in> set (map snd (sparse_map_entries m))" by (metis image_eqI set_map snd_conv)
  then show "v \<in> set (map_values m)" using sparse_map_entries_keys(2)[OF assms(1)] by simp
  from kv have "k \<in> set (map fst (sparse_map_entries m))" by (metis image_eqI set_map fst_conv)
  then show "k \<in> set (sparse_set_values (map_keys m))"
    using sparse_map_entries_keys(1)[OF assms(1)] by simp
qed

lemma sparse_map_values_found:
  assumes "sparse_map_inv ix m" "v \<in> set (map_values m)"
  shows "\<exists>k. sparse_map_find_value ix m k = Some v"
proof -
  have "v \<in> set (map snd (sparse_map_entries m))"
    using assms sparse_map_entries_keys(2)[OF assms(1)] by simp
  then obtain k where "(k, v) \<in> set (sparse_map_entries m)" by auto
  then show ?thesis using sparse_map_find_value_Some_iff[OF assms(1)] by blast
qed

lemma find_storage_mem:
  "registry_inv r \<Longrightarrow> find_storage r t = Some st \<Longrightarrow> st \<in> set (map_values (storages r))"
  using sparse_map_find_value_mem(1) by (metis find_storage_find_value registry_inv_def)

lemma put_storage_fields:
  "last_entity_id (put_storage r t st) = last_entity_id r"
  "free_entity_ids (put_storage r t st) = free_entity_ids r"
  "entity_ids (put_storage r t st) = entity_ids r"
  by (simp_all add: put_storage_def)

lemma put_storage_props:
  assumes sm: "sparse_map_inv sparse_unsigned_indexer (storages r)"
  shows "sparse_map_inv sparse_unsigned_indexer (storages (put_storage r t st))"
    "map_keys (storages (put_storage r t st)) = map_keys (storages r)"
    "find_storage (put_storage r t st) t' =
       (if t' = t \<and> find_storage r t \<noteq> None then Some st else find_storage r t')"
    "set (map_values (storages (put_storage r t st))) \<subseteq> insert st (set (map_values (storages r)))"
proof -
  note pa = sparse_map_get_value_assign_paired[OF sm, of t st]
  show "sparse_map_inv sparse_unsigned_indexer (storages (put_storage r t st))"
    using pa(1) by (simp add: put_storage_def)
  show "find_storage (put_storage r t st) t' =
       (if t' = t \<and> find_storage r t \<noteq> None then Some st else find_storage r t')"
    using pa(2)[of t'] by (simp add: put_storage_def find_storage_find_value sparse_map_has_find)
  show "map_keys (storages (put_storage r t st)) = map_keys (storages r)"
    by (simp add: put_storage_def sparse_map_get_value_assign_def split: sum.splits)
  show "set (map_values (storages (put_storage r t st))) \<subseteq> insert st (set (map_values (storages r)))"
    by (auto simp: put_storage_def sparse_map_get_value_assign_def split: sum.splits
        dest: set_update_subset_insert[THEN subsetD])
qed

lemma component_storage_empty_inv: "component_storage_inv component_storage_empty"
  by (simp add: component_storage_inv_def component_storage_empty_def sparse_map_empty_inv)

lemma component_storage_empty_keys: "component_storage_keys component_storage_empty = []"
  by (simp add: component_storage_empty_def component_storage_keys_def sparse_map_empty_def
      sparse_set_empty_def sparse_set_values_def)

lemma get_or_create_storage_props:
  assumes sm: "sparse_map_inv sparse_unsigned_indexer (storages r)"
    and res: "get_or_create_storage p r t = (x, r')"
  shows "last_entity_id r' = last_entity_id r" "free_entity_ids r' = free_entity_ids r"
    "entity_ids r' = entity_ids r"
    "\<And>e. x = Inl e \<Longrightarrow> r' = r \<and> (e = Length_error \<or> e = Bad_alloc)"
    "\<And>st. x = Inr st \<Longrightarrow>
       find_storage r' t = Some st \<and>
       sparse_map_inv sparse_unsigned_indexer (storages r') \<and>
       set (map_values (storages r')) \<subseteq> insert component_storage_empty (set (map_values (storages r))) \<and>
       (\<forall>t'. t' \<noteq> t \<longrightarrow> find_storage r' t' = find_storage r t') \<and>
       (find_storage r t = Some st \<and> r' = r \<or>
        find_storage r t = None \<and> st = component_storage_empty)"
proof -
  let ?ix = "sparse_unsigned_indexer :: family_id \<Rightarrow> nat"
  have all: "last_entity_id r' = last_entity_id r \<and> free_entity_ids r' = free_entity_ids r \<and>
    entity_ids r' = entity_ids r \<and>
    (\<forall>e. x = Inl e \<longrightarrow> r' = r \<and> (e = Length_error \<or> e = Bad_alloc)) \<and>
    (\<forall>st. x = Inr st \<longrightarrow>
       find_storage r' t = Some st \<and>
       sparse_map_inv sparse_unsigned_indexer (storages r') \<and>
       set (map_values (storages r')) \<subseteq> insert component_storage_empty (set (map_values (storages r))) \<and>
       (\<forall>t'. t' \<noteq> t \<longrightarrow> find_storage r' t' = find_storage r t') \<and>
       (find_storage r t = Some st \<and> r' = r \<or>
        find_storage r t = None \<and> st = component_storage_empty))"
  proof (cases "find_storage r t")
    case (Some st)
    then show ?thesis using res sm by (auto simp: get_or_create_storage_def)
  next
    case None
    define ins where "ins = sparse_map_insert p ?ix (storages r) t (component_storage_empty :: 'a component_storage)"
    define m where "m = snd ins"
    have f: "\<forall>k. sparse_map_find_value ?ix (storages r) k = find_storage r k"
      by (simp add: find_storage_find_value)
    note pa = sparse_map_insert_paired[OF sm f sparse_unsigned_index_free,
        where k = t and p = p and v = component_storage_empty, folded ins_def, folded m_def]
    have nh: "\<not> sparse_map_has ?ix (storages r) t"
      using None by (simp add: find_storage_find_value sparse_map_has_find)
    show ?thesis
    proof (cases "fst ins")
      case (Inl e)
      then have i: "ins = (Inl e, m)" by (simp add: m_def prod_eq_iff)
      have "m = storages r"
        using sparse_map_insert_rollback[of p ?ix "storages r" t component_storage_empty e] Inl
        by (simp add: m_def ins_def)
      moreover have "e = Length_error \<or> e = Bad_alloc"
        using sparse_map_insert_errors[of p ?ix "storages r" t component_storage_empty e m] i
        by (simp add: ins_def)
      ultimately show ?thesis
        using res None i
        by (auto simp: get_or_create_storage_def sparse_map_emplace_insert ins_def[symmetric])
    next
      case (Inr b)
      have "b"
        using sparse_map_insert_False[of p ?ix "storages r" t component_storage_empty m] nh Inr
        by (cases b) (auto simp: ins_def m_def prod_eq_iff)
      then have i: "ins = (Inr True, m)" using Inr by (simp add: m_def prod_eq_iff)
      have fm: "sparse_map_find_value ?ix m k = (if k = t then Some component_storage_empty
          else find_storage r k)" for k
        using pa(2) i by simp
      then have gv: "sparse_map_get_value ?ix m t = Inr component_storage_empty"
        by (simp add: sparse_map_get_value_find)
      have r': "r' = r\<lparr>storages := m\<rparr>" and x: "x = Inr component_storage_empty"
        using res None i gv
        by (auto simp: get_or_create_storage_def sparse_map_emplace_insert ins_def[symmetric])
      have vals: "map_values m = map_values (storages r) @ [component_storage_empty]"
        using sparse_map_insert_new(4)[OF i[unfolded ins_def] sm sparse_unsigned_index_free] .
      show ?thesis
        using pa(1) fm vals None by (auto simp: r' x find_storage_find_value)
    qed
  qed
  then show "last_entity_id r' = last_entity_id r" "free_entity_ids r' = free_entity_ids r"
    "entity_ids r' = entity_ids r"
    "\<And>e. x = Inl e \<Longrightarrow> r' = r \<and> (e = Length_error \<or> e = Bad_alloc)"
    "\<And>st. x = Inr st \<Longrightarrow>
       find_storage r' t = Some st \<and>
       sparse_map_inv sparse_unsigned_indexer (storages r') \<and>
       set (map_values (storages r')) \<subseteq> insert component_storage_empty (set (map_values (storages r))) \<and>
       (\<forall>t'. t' \<noteq> t \<longrightarrow> find_storage r' t' = find_storage r t') \<and>
       (find_storage r t = Some st \<and> r' = r \<or>
        find_storage r t = None \<and> st = component_storage_empty)"
    by blast+
qed

lemma component_storage_find_keys:
  assumes "component_storage_inv st"
  shows "component_storage_find st e \<noteq> None \<longleftrightarrow> e \<in> set (component_storage_keys st)"
proof -
  have m: "sparse_map_inv entity_id_indexer (components st)"
    using assms by (simp add: component_storage_inv_def)
  then have s: "sparse_set_inv entity_id_indexer (map_keys (components st))"
    by (simp add: sparse_map_inv_def)
  have "component_storage_find st e \<noteq> None \<longleftrightarrow>
      sparse_set_has entity_id_indexer (map_keys (components st)) e"
    using sparse_map_has_find[of entity_id_indexer "components st" e]
    by (simp add: component_storage_find_def sparse_map_has_def)
  then show ?thesis
    using sparse_set_has_iff[OF s] by (simp add: component_storage_keys_def)
qed

lemma component_storage_assign_props:
  assumes inv: "component_storage_inv st"
    and free: "\<forall>k \<in> set (component_storage_keys st).
                 entity_id_index k = entity_id_index e \<longrightarrow> k = e"
    and res: "component_storage_assign p st e c = (x, st')"
  shows "component_storage_inv st'"
    "set (component_storage_keys st') \<subseteq> insert e (set (component_storage_keys st))"
    "x = Inr () \<Longrightarrow> component_storage_find st' e' = (if e' = e then Some c else component_storage_find st e')"
    "\<And>err. x = Inl err \<Longrightarrow> st' = st \<and> component_storage_find st e = None"
proof -
  let ?ix = entity_id_indexer
  let ?m = "components st"
  have m: "sparse_map_inv ?ix ?m" using inv by (simp add: component_storage_inv_def)
  have fr: "sparse_set_index_free ?ix (map_keys ?m) e"
    using free by (simp add: sparse_set_index_free_def component_storage_keys_def
        entity_id_indexer_eq_iff)
  define ins where "ins = sparse_map_insert p ?ix ?m e c"
  define m1 where "m1 = snd ins"
  have f: "\<forall>k. sparse_map_find_value ?ix ?m k = component_storage_find st k"
    by (simp add: component_storage_find_def)
  note pa = sparse_map_insert_paired[OF m f fr, where p = p and v = c,
      folded ins_def, folded m1_def]
  have all: "component_storage_inv st' \<and>
    set (component_storage_keys st') \<subseteq> insert e (set (component_storage_keys st)) \<and>
    (x = Inr () \<longrightarrow> component_storage_find st' e' =
        (if e' = e then Some c else component_storage_find st e')) \<and>
    (\<forall>err. x = Inl err \<longrightarrow> st' = st \<and> component_storage_find st e = None)"
  proof (cases "fst ins")
    case (Inl err)
    then have i: "ins = (Inl err, m1)" by (simp add: m1_def prod_eq_iff)
    have m1: "m1 = ?m"
      using sparse_map_insert_rollback[of p ?ix ?m e c err] Inl by (simp add: m1_def ins_def)
    have "\<not> sparse_map_has ?ix ?m e"
      using sparse_map_insert_present[of ?ix ?m e p c] Inl by (auto simp: ins_def)
    then have "component_storage_find st e = None"
      by (simp add: component_storage_find_def sparse_map_has_find)
    then show ?thesis
      using res i m1 inv
      by (auto simp: component_storage_assign_def sparse_map_emplace_insert ins_def[symmetric])
  next
    case (Inr b)
    then have i: "ins = (Inr b, m1)" by (simp add: m1_def prod_eq_iff)
    show ?thesis
    proof (cases b)
      case True
      then have st': "st' = st\<lparr>components := m1\<rparr>" and x: "x = Inr ()"
        using res i
        by (auto simp: component_storage_assign_def sparse_map_emplace_insert ins_def[symmetric])
      have "sparse_set_values (map_keys m1) = sparse_set_values (map_keys ?m) @ [e]"
        using sparse_map_insert_new(5)[OF _ m fr] i True by (simp add: ins_def)
      then show ?thesis
        using pa i True
        by (simp add: st' x component_storage_inv_def component_storage_keys_def
            component_storage_find_def)
    next
      case False
      then have has: "sparse_map_has ?ix ?m e" and m1: "m1 = ?m"
        using sparse_map_insert_False[of p ?ix ?m e c m1] i by (simp_all add: ins_def)
      define m2 where "m2 = snd (sparse_map_get_value_assign ?ix ?m e c)"
      note ga = sparse_map_get_value_assign_present[OF m has, of c, folded m2_def]
      note gp = sparse_map_get_value_assign_paired[OF m, of e c, folded m2_def]
      have "sparse_map_get_value_assign ?ix ?m e c = (Inr (), m2)"
        using ga(1) by (simp add: m2_def prod_eq_iff)
      then have st': "st' = st\<lparr>components := m2\<rparr>" and x: "x = Inr ()"
        using res i False m1
        by (auto simp: component_storage_assign_def sparse_map_emplace_insert ins_def[symmetric])
      show ?thesis
        using ga(2,3) gp(2)[of e'] has
        by (auto simp: st' x component_storage_inv_def component_storage_keys_def
            component_storage_find_def)
    qed
  qed
  then show "component_storage_inv st'"
    "set (component_storage_keys st') \<subseteq> insert e (set (component_storage_keys st))"
    "x = Inr () \<Longrightarrow> component_storage_find st' e' = (if e' = e then Some c else component_storage_find st e')"
    "\<And>err. x = Inl err \<Longrightarrow> st' = st \<and> component_storage_find st e = None"
    by blast+
qed

lemma component_storage_assign_present:
  assumes "component_storage_find st e \<noteq> None"
  shows "fst (component_storage_assign p st e c) = Inr ()"
proof -
  have has: "sparse_map_has entity_id_indexer (components st) e"
    using assms by (simp add: component_storage_find_def sparse_map_has_find)
  then have "sparse_set_has entity_id_indexer (map_keys (components st)) e"
    by (simp add: sparse_map_has_def)
  then show ?thesis
    using sparse_map_insert_present[OF has, of p c]
    by (simp add: component_storage_assign_def sparse_map_emplace_insert
        sparse_map_get_value_assign_def sparse_set_get_index_def sparse_set_find_index_def)
qed

lemma component_storage_remove_props:
  assumes inv: "component_storage_inv st"
    and res: "component_storage_remove st e = (b, st')"
  shows "component_storage_inv st'"
    "set (component_storage_keys st') = set (component_storage_keys st) - {e}"
    "component_storage_find st' e' = (if e' = e then None else component_storage_find st e')"
    "b \<longleftrightarrow> e \<in> set (component_storage_keys st)"
proof -
  let ?ix = entity_id_indexer
  let ?m = "components st"
  have m: "sparse_map_inv ?ix ?m" using inv by (simp add: component_storage_inv_def)
  then have s: "sparse_set_inv ?ix (map_keys ?m)" by (simp add: sparse_map_inv_def)
  define m1 where "m1 = snd (sparse_map_unordered_erase ?ix ?m e)"
  have st': "st' = st\<lparr>components := m1\<rparr>"
    using res by (auto simp: component_storage_remove_def m1_def split: prod.splits sum.splits)
  note pa = sparse_map_unordered_erase_paired[OF m, of e, folded m1_def]
  show "component_storage_inv st'" using pa(1) by (simp add: st' component_storage_inv_def)
  show "component_storage_find st' e' = (if e' = e then None else component_storage_find st e')"
    using pa(2)[of e'] by (simp add: st' component_storage_find_def)
  have hk: "sparse_map_has ?ix ?m e \<longleftrightarrow> e \<in> set (component_storage_keys st)"
    using sparse_set_has_iff[OF s] by (simp add: sparse_map_has_def component_storage_keys_def)
  show "set (component_storage_keys st') = set (component_storage_keys st) - {e}"
  proof (cases "sparse_map_has ?ix ?m e")
    case True
    then show ?thesis
      using sparse_map_unordered_erase_present(4)[OF m True, folded m1_def]
      by (simp add: st' component_storage_keys_def)
  next
    case False
    then show ?thesis
      using hk by (simp add: st' m1_def sparse_map_unordered_erase_absent component_storage_keys_def)
  qed
  show "b \<longleftrightarrow> e \<in> set (component_storage_keys st)"
  proof (cases "sparse_map_has ?ix ?m e")
    case True
    then show ?thesis
      using res hk sparse_map_unordered_erase_present(1)[OF m True]
      by (auto simp: component_storage_remove_def split: prod.splits sum.splits)
  next
    case False
    then show ?thesis
      using res hk by (auto simp: component_storage_remove_def sparse_map_unordered_erase_absent)
  qed
qed

subsection \<open>Assigning and removing components\<close>

lemma registry_inv_live_index_inj:
  assumes "registry_inv r" "u \<in> set (sparse_set_values (entity_ids r))"
    "v \<in> set (sparse_set_values (entity_ids r))" "entity_id_index u = entity_id_index v"
  shows "u = v"
  using assms sparse_set_inv_index_inj[of entity_id_indexer "entity_ids r" u v]
  by (simp add: registry_inv_def entity_id_indexer_eq_iff)

lemma registry_inv_storage:
  assumes "registry_inv r" "st \<in> set (map_values (storages r))"
  shows "component_storage_inv st"
    "set (component_storage_keys st) \<subseteq> set (sparse_set_values (entity_ids r))"
  using assms by (auto simp: registry_inv_def)

lemma registry_inv_storages_update:
  assumes inv: "registry_inv r"
    and fields: "last_entity_id r' = last_entity_id r" "free_entity_ids r' = free_entity_ids r"
      "entity_ids r' = entity_ids r"
    and sm: "sparse_map_inv sparse_unsigned_indexer (storages r')"
    and sts: "\<And>st. st \<in> set (map_values (storages r')) \<Longrightarrow>
       component_storage_inv st \<and>
       set (component_storage_keys st) \<subseteq> set (sparse_set_values (entity_ids r))"
  shows "registry_inv r'"
  using inv fields sm sts unfolding registry_inv_def by simp

lemma registry_inv_put_storage:
  assumes inv: "registry_inv r" and st: "component_storage_inv st"
    and keys: "set (component_storage_keys st) \<subseteq> set (sparse_set_values (entity_ids r))"
  shows "registry_inv (put_storage r t st)"
proof (rule registry_inv_storages_update[OF inv])
  have sm: "sparse_map_inv sparse_unsigned_indexer (storages r)"
    using inv by (simp add: registry_inv_def)
  show "sparse_map_inv sparse_unsigned_indexer (storages (put_storage r t st))"
    by (rule put_storage_props(1)[OF sm])
  fix s assume "s \<in> set (map_values (storages (put_storage r t st)))"
  then have "s = st \<or> s \<in> set (map_values (storages r))"
    using put_storage_props(4)[OF sm, of t st] by auto
  then show "component_storage_inv s \<and>
       set (component_storage_keys s) \<subseteq> set (sparse_set_values (entity_ids r))"
    using st keys registry_inv_storage[OF inv] by auto
qed (simp_all add: put_storage_fields)

lemma get_or_create_storage_inv:
  assumes inv: "registry_inv r" and res: "get_or_create_storage p r t = (x, r')"
  shows "registry_inv r'"
proof -
  have sm: "sparse_map_inv sparse_unsigned_indexer (storages r)"
    using inv by (simp add: registry_inv_def)
  note gp = get_or_create_storage_props[OF sm res]
  show ?thesis
  proof (cases x)
    case (Inl e)
    then show ?thesis using gp(4) inv by simp
  next
    case (Inr st)
    note g = gp(5)[OF Inr]
    show ?thesis
    proof (rule registry_inv_storages_update[OF inv gp(1,2,3)])
      show "sparse_map_inv sparse_unsigned_indexer (storages r')" using g by simp
      fix s assume "s \<in> set (map_values (storages r'))"
      then have "s = component_storage_empty \<or> s \<in> set (map_values (storages r))"
        using g by auto
      then show "component_storage_inv s \<and>
         set (component_storage_keys s) \<subseteq> set (sparse_set_values (entity_ids r))"
      proof
        assume "s = component_storage_empty"
        then show ?thesis
          by (simp add: component_storage_empty_inv component_storage_empty_keys)
      next
        assume "s \<in> set (map_values (storages r))"
        then show ?thesis using registry_inv_storage[OF inv] by simp
      qed
    qed
  qed
qed

lemma assign_component_inv:
  assumes inv: "registry_inv r"
  shows "registry_inv (snd (assign_component p r t e c))"
proof (cases "is_entity_alive_impl r e")
  case False
  then show ?thesis using inv by (simp add: assign_component_def)
next
  case True
  then have live: "e \<in> set (sparse_set_values (entity_ids r))"
    using registry_inv_alive_iff[OF inv] by (simp add: is_entity_alive_def)
  obtain x r1 where g: "get_or_create_storage p r t = (x, r1)"
    by (cases "get_or_create_storage p r t")
  have inv1: "registry_inv r1" by (rule get_or_create_storage_inv[OF inv g])
  have sm: "sparse_map_inv sparse_unsigned_indexer (storages r)"
    using inv by (simp add: registry_inv_def)
  note gp = get_or_create_storage_props[OF sm g]
  show ?thesis
  proof (cases x)
    case (Inl err)
    then show ?thesis using True g inv1 by (simp add: assign_component_def)
  next
    case (Inr st)
    have "find_storage r1 t = Some st" using gp(5)[OF Inr] by simp
    then have stm: "st \<in> set (map_values (storages r1))"
      by (rule find_storage_mem[OF inv1])
    note si = registry_inv_storage[OF inv1 stm]
    obtain y st' where a: "component_storage_assign p st e c = (y, st')"
      by (cases "component_storage_assign p st e c")
    have free: "\<forall>k \<in> set (component_storage_keys st).
                 entity_id_index k = entity_id_index e \<longrightarrow> k = e"
      using si(2) live registry_inv_live_index_inj[OF inv1] gp(3) by auto
    note ap = component_storage_assign_props[OF si(1) free a]
    have "registry_inv (put_storage r1 t st')"
      using ap(1,2) si(2) live gp(3) by (intro registry_inv_put_storage[OF inv1]) auto
    then show ?thesis
      using True g Inr a by (auto simp: assign_component_def split: sum.splits)
  qed
qed

lemma remove_component_inv:
  assumes inv: "registry_inv r"
  shows "registry_inv (snd (remove_component r t e))"
proof (cases "is_entity_alive_impl r e \<and> find_storage r t \<noteq> None")
  case False
  then show ?thesis using inv by (auto simp: remove_component_def)
next
  case True
  then obtain st where st: "find_storage r t = Some st" by auto
  obtain b st' where rm: "component_storage_remove st e = (b, st')"
    by (cases "component_storage_remove st e")
  note si = registry_inv_storage[OF inv find_storage_mem[OF inv st]]
  note rp = component_storage_remove_props[OF si(1) rm]
  have "registry_inv (put_storage r t st')"
    using rp(1,2) si(2) by (intro registry_inv_put_storage[OF inv]) auto
  then show ?thesis using True st rm by (simp add: remove_component_def)
qed

lemma find_storage_keys:
  assumes "registry_inv r"
  shows "find_storage r t \<noteq> None \<longleftrightarrow> t \<in> set (sparse_set_values (map_keys (storages r)))"
proof -
  have sm: "sparse_map_inv sparse_unsigned_indexer (storages r)"
    using assms by (simp add: registry_inv_def)
  then have s: "sparse_set_inv sparse_unsigned_indexer (map_keys (storages r))"
    by (simp add: sparse_map_inv_def)
  have "find_storage r t \<noteq> None \<longleftrightarrow>
      sparse_set_has sparse_unsigned_indexer (map_keys (storages r)) t"
    using sparse_map_has_find[of sparse_unsigned_indexer "storages r" t]
    by (simp add: find_storage_find_value sparse_map_has_def)
  then show ?thesis using sparse_set_has_iff[OF s] by simp
qed

lemma remove_all_components_loop_props:
  assumes "registry_inv r" "set ts \<subseteq> set (sparse_set_values (map_keys (storages r)))"
    "distinct ts"
  shows "registry_inv (snd (remove_all_components_loop e ts r n)) \<and>
    last_entity_id (snd (remove_all_components_loop e ts r n)) = last_entity_id r \<and>
    free_entity_ids (snd (remove_all_components_loop e ts r n)) = free_entity_ids r \<and>
    entity_ids (snd (remove_all_components_loop e ts r n)) = entity_ids r \<and>
    map_keys (storages (snd (remove_all_components_loop e ts r n))) = map_keys (storages r) \<and>
    (\<forall>t. find_storage (snd (remove_all_components_loop e ts r n)) t =
       (case find_storage r t of
          None \<Rightarrow> None
        | Some st \<Rightarrow> Some (if t \<in> set ts then snd (component_storage_remove st e) else st)))"
  using assms
proof (induction ts arbitrary: r n)
  case Nil
  then show ?case by (simp split: option.splits)
next
  case (Cons i ts)
  have sm: "sparse_map_inv sparse_unsigned_indexer (storages r)"
    using Cons.prems(1) by (simp add: registry_inv_def)
  have "find_storage r i \<noteq> None"
    using Cons.prems(2) find_storage_keys[OF Cons.prems(1)] by simp
  then obtain st where st: "find_storage r i = Some st" by auto
  then have gv: "sparse_map_get_value sparse_unsigned_indexer (storages r) i = Inr st"
    by (simp add: sparse_map_get_value_find find_storage_find_value)
  obtain b st' where rm: "component_storage_remove st e = (b, st')"
    by (cases "component_storage_remove st e")
  define r1 where "r1 = put_storage r i st'"
  note si = registry_inv_storage[OF Cons.prems(1) find_storage_mem[OF Cons.prems(1) st]]
  note rp = component_storage_remove_props[OF si(1) rm]
  have inv1: "registry_inv r1"
    unfolding r1_def using rp(1,2) si(2) by (intro registry_inv_put_storage[OF Cons.prems(1)]) auto
  note pp = put_storage_props[OF sm, of i st', folded r1_def]
  have keys1: "set ts \<subseteq> set (sparse_set_values (map_keys (storages r1)))"
    using Cons.prems(2) pp(2) by simp
  have d: "distinct ts" "i \<notin> set ts" using Cons.prems(3) by simp_all
  note ih = Cons.IH[OF inv1 keys1 d(1), of "if b then n + 1 else n"]
  have step: "remove_all_components_loop e (i # ts) r n =
      remove_all_components_loop e ts r1 (if b then n + 1 else n)"
    using gv rm by (simp add: r1_def)
  have f1: "find_storage r1 t = (if t = i then Some st' else find_storage r t)" for t
    using pp(3)[of t] st by simp
  have "find_storage (snd (remove_all_components_loop e ts r1 (if b then n + 1 else n))) t =
       (case find_storage r t of
          None \<Rightarrow> None
        | Some s \<Rightarrow> Some (if t \<in> set (i # ts) then snd (component_storage_remove s e) else s))" for t
    using ih f1[of t] st rm d(2) by (auto split: option.splits)
  moreover have "last_entity_id r1 = last_entity_id r" "free_entity_ids r1 = free_entity_ids r"
    "entity_ids r1 = entity_ids r"
    by (simp_all add: r1_def put_storage_fields)
  ultimately show ?case
    using ih pp(2) by (simp add: step del: remove_all_components_loop.simps)
qed

lemma remove_all_components_impl_props:
  fixes e :: entity_id
  assumes inv: "registry_inv r"
  defines "r' \<equiv> snd (remove_all_components_impl r e)"
  shows "registry_inv r'"
    "last_entity_id r' = last_entity_id r" "free_entity_ids r' = free_entity_ids r"
    "entity_ids r' = entity_ids r"
    "is_entity_alive_impl r e \<Longrightarrow> st \<in> set (map_values (storages r')) \<Longrightarrow>
       e \<notin> set (component_storage_keys st)"
    "is_entity_alive_impl r e \<Longrightarrow>
       find_component_impl r' t e' = (if e' = e then None else find_component_impl r t e')"
    "\<not> is_entity_alive_impl r e \<Longrightarrow> r' = r"
proof -
  let ?ts = "sparse_set_values (map_keys (storages r))"
  show "\<not> is_entity_alive_impl r e \<Longrightarrow> r' = r"
    by (simp add: r'_def remove_all_components_impl_def)
  have sm: "sparse_map_inv sparse_unsigned_indexer (storages r)"
    using inv by (simp add: registry_inv_def)
  then have "distinct ?ts" by (simp add: sparse_map_inv_def sparse_set_inv_def)
  note lp = remove_all_components_loop_props[OF inv subset_refl this, of e 0]
  have alive: "r' = snd (remove_all_components_loop e ?ts r 0)" if "is_entity_alive_impl r e"
    using that by (simp add: r'_def remove_all_components_impl_def)
  have dead: "r' = r" if "\<not> is_entity_alive_impl r e"
    using that by (simp add: r'_def remove_all_components_impl_def)
  show inv': "registry_inv r'" "last_entity_id r' = last_entity_id r"
    "free_entity_ids r' = free_entity_ids r" "entity_ids r' = entity_ids r"
    using lp alive dead inv by (cases "is_entity_alive_impl r e"; simp)+
  have fs: "find_storage r' t =
       (case find_storage r t of
          None \<Rightarrow> None
        | Some st \<Rightarrow> Some (snd (component_storage_remove st e)))"
    if a: "is_entity_alive_impl r e" for t
  proof (cases "find_storage r t")
    case None
    then show ?thesis using lp alive[OF a] by simp
  next
    case (Some s)
    then have "t \<in> set ?ts" using find_storage_keys[OF inv, of t] by simp
    then show ?thesis using lp alive[OF a] Some by simp
  qed
  show "e \<notin> set (component_storage_keys st)"
    if a: "is_entity_alive_impl r e" and m: "st \<in> set (map_values (storages r'))"
  proof -
    have sm': "sparse_map_inv sparse_unsigned_indexer (storages r')"
      using inv'(1) by (simp add: registry_inv_def)
    from sparse_map_values_found[OF sm' m] obtain t where "find_storage r' t = Some st"
      by (auto simp: find_storage_find_value)
    then obtain s where s: "find_storage r t = Some s" and st: "st = snd (component_storage_remove s e)"
      using fs[OF a, of t] by (auto split: option.splits)
    note si = registry_inv_storage[OF inv find_storage_mem[OF inv s]]
    show ?thesis
      using component_storage_remove_props(2)[OF si(1), of e "fst (component_storage_remove s e)" st]
      by (simp add: st)
  qed
  show "find_component_impl r' t e' = (if e' = e then None else find_component_impl r t e')"
    if a: "is_entity_alive_impl r e"
  proof (cases "find_storage r t")
    case None
    then show ?thesis using fs[OF a, of t] by (simp add: find_component_impl_def)
  next
    case (Some s)
    note si = registry_inv_storage[OF inv find_storage_mem[OF inv Some]]
    show ?thesis
      using fs[OF a, of t] Some
        component_storage_remove_props(3)[OF si(1), of e "fst (component_storage_remove s e)"
          "snd (component_storage_remove s e)" e']
      by (simp add: find_component_impl_def)
  qed
qed

subsection \<open>Destroying entities; every reachable registry\<close>

lemma find_storage_cong:
  assumes "storages r' = storages r"
  shows "find_storage r' t = find_storage r t"
  unfolding find_storage_def assms ..

lemma find_component_impl_cong:
  assumes "storages r' = storages r"
  shows "find_component_impl r' t e = find_component_impl r t e"
  unfolding find_component_impl_def find_storage_cong[OF assms] ..

lemma destroy_entity_unfold:
  "destroy_entity p r e =
     (if fst (sparse_set_unordered_erase entity_id_indexer
                (entity_ids (snd (remove_all_components_impl r e))) e) then
        (if push_ok p (length (free_entity_ids (snd (remove_all_components_impl r e)))) then
           (Inr True,
            (snd (remove_all_components_impl r e))
              \<lparr>entity_ids := snd (sparse_set_unordered_erase entity_id_indexer
                  (entity_ids (snd (remove_all_components_impl r e))) e),
               free_entity_ids := free_entity_ids (snd (remove_all_components_impl r e)) @ [e]\<rparr>)
         else
           (Inl Bad_alloc,
            (snd (remove_all_components_impl r e))
              \<lparr>entity_ids := snd (sparse_set_unordered_erase entity_id_indexer
                  (entity_ids (snd (remove_all_components_impl r e))) e)\<rparr>))
      else
        (Inr False,
         (snd (remove_all_components_impl r e))
           \<lparr>entity_ids := snd (sparse_set_unordered_erase entity_id_indexer
               (entity_ids (snd (remove_all_components_impl r e))) e)\<rparr>))"
proof -
  obtain n r1 where a: "remove_all_components_impl r e = (n, r1)"
    by (cases "remove_all_components_impl r e")
  obtain b ids where b: "sparse_set_unordered_erase entity_id_indexer (entity_ids r1) e = (b, ids)"
    by (cases "sparse_set_unordered_erase entity_id_indexer (entity_ids r1) e")
  show ?thesis by (cases b) (simp_all add: destroy_entity_def a b)
qed

lemma destroy_entity_props:
  assumes inv: "registry_inv r" and res: "destroy_entity p r e = (x, r')"
  shows "registry_inv r'"
    "last_entity_id r' = last_entity_id r"
    "x = Inr True \<Longrightarrow>
       e \<in> set (sparse_set_values (entity_ids r)) \<and> free_entity_ids r' = free_entity_ids r @ [e] \<and>
       set (sparse_set_values (entity_ids r')) = set (sparse_set_values (entity_ids r)) - {e}"
    "x = Inr False \<Longrightarrow> r' = r \<and> \<not> is_entity_alive r e"
    "\<not> is_entity_alive r e \<Longrightarrow> x = Inr False"
    "is_entity_alive r e \<Longrightarrow> find_component_impl r' t e' =
        (if e' = e then None else find_component_impl r t e')"
proof -
  let ?L = "sparse_set_values (entity_ids r)"
  define r1 where "r1 = snd (remove_all_components_impl r e)"
  note ra = remove_all_components_impl_props[OF inv, of e, folded r1_def]
  have sinv: "sparse_set_inv entity_id_indexer (entity_ids r)"
    using inv by (simp add: registry_inv_def)
  have all: "registry_inv r' \<and> last_entity_id r' = last_entity_id r \<and>
    (x = Inr True \<longrightarrow> e \<in> set ?L \<and> free_entity_ids r' = free_entity_ids r @ [e] \<and>
       set (sparse_set_values (entity_ids r')) = set ?L - {e}) \<and>
    (x = Inr False \<longrightarrow> r' = r \<and> \<not> is_entity_alive r e) \<and>
    (\<not> is_entity_alive r e \<longrightarrow> x = Inr False) \<and>
    (is_entity_alive r e \<longrightarrow> find_component_impl r' t e' =
        (if e' = e then None else find_component_impl r t e'))"
  proof (cases "is_entity_alive_impl r e")
    case False
    then have "r1 = r" using ra(7) by simp
    then have "destroy_entity p r e = (Inr False, r)"
      using False
      by (simp add: destroy_entity_unfold r1_def[symmetric] is_entity_alive_impl_def
          sparse_set_unordered_erase_absent)
    then show ?thesis using res inv False by (simp add: is_entity_alive_def)
  next
    case True
    then have has: "sparse_set_has entity_id_indexer (entity_ids r) e"
      by (simp add: is_entity_alive_impl_def)
    then have eL: "e \<in> set ?L" using sparse_set_has_iff[OF sinv] by simp
    define ids where "ids = snd (sparse_set_unordered_erase entity_id_indexer (entity_ids r) e)"
    note er = sparse_set_unordered_erase_present[OF sinv has, folded ids_def]
    have era: "sparse_set_unordered_erase entity_id_indexer (entity_ids r1) e = (True, ids)"
      using er(1) ra(4) by (simp add: ids_def prod_eq_iff)
    have inv1: "registry_inv r1" by (rule ra(1))
    have fl: "\<forall>f \<in> set (free_entity_ids r). \<forall>l \<in> set ?L. entity_id_index f \<noteq> entity_id_index l"
      and bd: "\<forall>i \<in> set (free_entity_ids r) \<union> set ?L. entity_id_index i \<le> last_entity_id r"
      and df: "distinct (map entity_id_index (free_entity_ids r))"
      and lm: "last_entity_id r \<le> entity_id_index_mask"
      using inv by (auto simp: registry_inv_def)
    have sm1: "sparse_map_inv sparse_unsigned_indexer (storages r1)"
      using inv1 by (simp add: registry_inv_def)
    have sts: "component_storage_inv st \<and> set (component_storage_keys st) \<subseteq> set (sparse_set_values ids)"
      if "st \<in> set (map_values (storages r1))" for st
      using registry_inv_storage[OF inv1 that] ra(5)[OF True that] ra(4) er(4) by auto
    have nf: "entity_id_index e \<notin> entity_id_index ` set (free_entity_ids r)"
    proof
      assume "entity_id_index e \<in> entity_id_index ` set (free_entity_ids r)"
      then obtain f where "f \<in> set (free_entity_ids r)" "entity_id_index f = entity_id_index e"
        by (auto simp: image_iff)
      then show False using fl eL by metis
    qed
    have ne: "entity_id_index e \<noteq> entity_id_index l" if "l \<in> set (sparse_set_values ids)" for l
    proof -
      have "l \<in> set ?L" "l \<noteq> e" using that er(4) by simp_all
      then show ?thesis using registry_inv_live_index_inj[OF inv eL, of l] by metis
    qed
    have sub: "set (sparse_set_values ids) \<subseteq> set ?L" using er(4) by auto
    have c3: "\<forall>st \<in> set (map_values (storages r1)).
        component_storage_inv st \<and> set (component_storage_keys st) \<subseteq> set (sparse_set_values ids)"
      using sts by blast
    have dA: "distinct (map entity_id_index (free_entity_ids r @ [e]))"
      using df nf by simp
    have flB: "\<forall>f \<in> set (free_entity_ids r). \<forall>l \<in> set (sparse_set_values ids).
        entity_id_index f \<noteq> entity_id_index l"
      using fl sub by (meson subsetD)
    have flA: "\<forall>f \<in> set (free_entity_ids r @ [e]). \<forall>l \<in> set (sparse_set_values ids).
        entity_id_index f \<noteq> entity_id_index l"
      using flB ne by (simp add: ball_Un)
    have bdB: "\<forall>i \<in> set (free_entity_ids r) \<union> set (sparse_set_values ids).
        entity_id_index i \<le> last_entity_id r"
      using bd sub by (meson UnE UnI1 UnI2 subsetD)
    have bdA: "\<forall>i \<in> set (free_entity_ids r @ [e]) \<union> set (sparse_set_values ids).
        entity_id_index i \<le> last_entity_id r"
      using bdB bd eL by (simp add: ball_Un)
    have invA: "registry_inv (r1\<lparr>entity_ids := ids, free_entity_ids := free_entity_ids r1 @ [e]\<rparr>)"
      unfolding registry_inv_def
      using er(2) sm1 c3 dA flA bdA lm by (simp add: ra(2,3))
    have invB: "registry_inv (r1\<lparr>entity_ids := ids\<rparr>)"
      unfolding registry_inv_def
      using er(2) sm1 c3 df flB bdB lm by (simp add: ra(2,3))
    have fc: "find_component_impl (r1\<lparr>entity_ids := ids, free_entity_ids := fr\<rparr>) t e' =
        (if e' = e then None else find_component_impl r t e')" for fr
      using ra(6)[OF True, of t e']
        find_component_impl_cong[of "r1\<lparr>entity_ids := ids, free_entity_ids := fr\<rparr>" r1 t e']
      by simp
    have fc2: "find_component_impl (r1\<lparr>entity_ids := ids\<rparr>) t e' =
        (if e' = e then None else find_component_impl r t e')"
      using ra(6)[OF True, of t e']
        find_component_impl_cong[of "r1\<lparr>entity_ids := ids\<rparr>" r1 t e']
      by simp
    show ?thesis
    proof (cases "push_ok p (length (free_entity_ids r1))")
      case True
      then have "x = Inr True" "r' = r1\<lparr>entity_ids := ids, free_entity_ids := free_entity_ids r1 @ [e]\<rparr>"
        using res era by (simp_all add: destroy_entity_unfold r1_def[symmetric])
      then show ?thesis
        using invA ra(2,3) eL er(4) fc \<open>is_entity_alive_impl r e\<close>
        by (simp add: is_entity_alive_def)
    next
      case False
      then have "x = Inl Bad_alloc" "r' = r1\<lparr>entity_ids := ids\<rparr>"
        using res era by (simp_all add: destroy_entity_unfold r1_def[symmetric])
      then show ?thesis using invB ra(2) \<open>is_entity_alive_impl r e\<close> fc2
        by (simp add: is_entity_alive_def)
    qed
  qed
  then show "registry_inv r'"
    "last_entity_id r' = last_entity_id r"
    "x = Inr True \<Longrightarrow>
       e \<in> set (sparse_set_values (entity_ids r)) \<and> free_entity_ids r' = free_entity_ids r @ [e] \<and>
       set (sparse_set_values (entity_ids r')) = set (sparse_set_values (entity_ids r)) - {e}"
    "x = Inr False \<Longrightarrow> r' = r \<and> \<not> is_entity_alive r e"
    "\<not> is_entity_alive r e \<Longrightarrow> x = Inr False"
    "is_entity_alive r e \<Longrightarrow> find_component_impl r' t e' =
        (if e' = e then None else find_component_impl r t e')"
    by simp_all
qed

lemma registry_apply_inv:
  assumes "registry_inv r"
  shows "registry_inv (registry_apply a r)"
proof (cases a)
  case (Pair p op)
  show ?thesis
  proof (cases op)
    case Create_entity
    then show ?thesis using Pair create_entity_inv[OF assms] by simp
  next
    case (Destroy_entity e)
    then show ?thesis
      using Pair destroy_entity_props(1)[OF assms, of p e "fst (destroy_entity p r e)"
          "snd (destroy_entity p r e)"] by simp
  next
    case (Assign_component t e c)
    then show ?thesis using Pair assign_component_inv[OF assms] by simp
  next
    case (Remove_component t e)
    then show ?thesis using Pair remove_component_inv[OF assms] by simp
  next
    case (Remove_all_components e)
    then show ?thesis
      using Pair remove_all_components_impl_props(1)[OF assms]
      by (simp add: remove_all_components_def)
  qed
qed

lemma registry_run_inv:
  "registry_inv r \<Longrightarrow> registry_inv (registry_run ops r)"
  by (induction ops arbitrary: r) (simp_all add: registry_apply_inv)

lemma registry_reachable_inv: "registry_inv (registry_run ops registry_empty)"
  by (rule registry_run_inv[OF registry_empty_inv])

section \<open>Evaluating the registry on concrete inputs\<close>

lemmas entity_id_eval =
  entity_id_version_def entity_id_join_def entity_id_version_mask_value entity_id_index_bits_def

lemmas sparse_map_eval =
  sparse_map_insert_def sparse_map_emplace_def sparse_map_unordered_erase_def sparse_map_has_def
  sparse_map_get_value_def sparse_map_get_value_assign_def sparse_map_find_value_def
  sparse_map_empty_def sparse_set_find_index_def sparse_set_get_index_def sparse_map_clear_def
  sparse_set_clear_def

lemmas registry_eval =
  create_entity_def destroy_entity_def assign_component_def remove_component_def
  is_entity_alive_impl_def is_entity_alive_def find_storage_def put_storage_def
  get_or_create_storage_def remove_all_components_impl_def registry_empty_def
  component_storage_assign_def component_storage_remove_def component_storage_exists_def
  component_storage_find_def component_storage_empty_def find_component_impl_def
  find_component_def get_component_def exists_component_def

lemma reused_registry_value:
  "reused_registry =
     \<lparr>last_entity_id = 1, free_entity_ids = [],
      entity_ids =
        \<lparr>set_dense = [4194305, 0], set_sparse = [0, 0], set_size = 1, set_capacity = 2\<rparr>,
      storages =
        \<lparr>map_keys =
           \<lparr>set_dense = (replicate 8 0)[0 := 7], set_sparse = (replicate 8 0)[7 := 0],
            set_size = 1, set_capacity = 8\<rparr>,
         map_values =
           [\<lparr>components =
               \<lparr>map_keys =
                  \<lparr>set_dense = [4194305, 0], set_sparse = [0, 0], set_size = 1,
                   set_capacity = 2\<rparr>,
                map_values = [42]\<rparr>\<rparr>]\<rparr>\<rparr>"
  by (simp add: reused_registry_def registry_eval sparse_set_eval sparse_map_eval entity_id_eval
      Let_def)

section \<open>Map parity\<close>




section \<open>Dead handles\<close>

text \<open>
  C10: for every registry state, every component type (family) and every entity handle
  that is not alive, \<^verbatim>\<open>assign_component\<close> returns \<open>false\<close> and leaves the registry
  unchanged: no storage is created, no table entry is added, no component is modified.
\<close>

theorem assign_component_dead_handle:
  "\<not> is_entity_alive r ent \<Longrightarrow> assign_component p r family ent c = (Inr False, r)"
  by (simp add: assign_component_def is_entity_alive_def)

theorem assign_component_dead_handle_witness:
  "\<not> is_entity_alive reused_registry 1 \<and>
   assign_component roomy reused_registry 9 1 5 = (Inr False, reused_registry)"
proof -
  have h: "\<not> is_entity_alive reused_registry 1"
    by (simp add: reused_registry_value registry_eval sparse_set_eval)
  from assign_component_dead_handle[OF h] h show ?thesis by simp
qed

text \<open>
  C6, as stated, fails: \<^verbatim>\<open>remove_all_components_impl_\<close> returns at once when the handle
  is not alive. In \<open>reused_registry\<close> the stale handle \<open>1\<close> and the live entity
  \<open>4194305\<close> share index 1; destroying the stale handle returns \<open>false\<close> and the live
  entity's component at that index is still there.
\<close>

theorem destroy_entity_dead_handle_counterexample:
  "\<not> is_entity_alive reused_registry 1 \<and>
   entity_id_index 4194305 = entity_id_index 1 \<and>
   fst (destroy_entity roomy reused_registry 1) = Inr False \<and>
   find_component (snd (destroy_entity roomy reused_registry 1)) 7 4194305 = Some 42"
  by (simp add: reused_registry_value registry_eval sparse_set_eval sparse_map_eval)

text \<open>
  C6 (amended): for every registry state and every entity handle that is not alive,
  \<^verbatim>\<open>destroy_entity\<close> removes no component entry, leaves the whole registry unchanged, and
  returns \<open>false\<close> because the id is not in the live-entity set.
\<close>

theorem destroy_entity_dead_handle:
  "\<not> is_entity_alive r ent \<Longrightarrow> destroy_entity p r ent = (Inr False, r)"
  by (simp add: destroy_entity_def remove_all_components_impl_def is_entity_alive_def
      is_entity_alive_impl_def sparse_set_unordered_erase_def)

theorem destroy_entity_dead_handle_witness:
  "\<not> is_entity_alive reused_registry 1 \<and>
   destroy_entity roomy reused_registry 1 = (Inr False, reused_registry)"
proof -
  have h: "\<not> is_entity_alive reused_registry 1"
    by (simp add: reused_registry_value registry_eval sparse_set_eval)
  from destroy_entity_dead_handle[OF h] h show ?thesis by simp
qed

section \<open>A failed create\_entity\<close>

text \<open>
  What a failed \<^verbatim>\<open>create_entity\<close> leaves: the free list and the live set are untouched;
  \<^verbatim>\<open>last_entity_id_\<close> is untouched on the free-list path and at exhaustion, but on the
  fresh-index path it has been incremented before the insertion threw.
\<close>

lemma create_entity_failed_frame:
  assumes "create_entity p r = (Inl e, r')"
  shows "free_entity_ids r' = free_entity_ids r" "entity_ids r' = entity_ids r"
    "storages r' = storages r"
    "free_entity_ids r \<noteq> [] \<or> e = Entity_index_overflow \<Longrightarrow> r' = r"
    "free_entity_ids r = [] \<Longrightarrow> e \<noteq> Entity_index_overflow \<Longrightarrow>
       last_entity_id r' = last_entity_id r + 1"
proof -
  have ins: "\<And>s v x t. sparse_set_insert p entity_id_indexer s v = (Inl x, t) \<Longrightarrow> t = s"
    using sparse_set_insert_failed by (metis fst_conv snd_conv)
  show "free_entity_ids r' = free_entity_ids r" "entity_ids r' = entity_ids r"
    "storages r' = storages r"
    using assms
    by (auto simp: create_entity_def Let_def split: if_splits prod.splits sum.splits dest: ins)
  show "free_entity_ids r \<noteq> [] \<or> e = Entity_index_overflow \<Longrightarrow> r' = r"
    using assms
    by (auto simp: create_entity_def Let_def split: if_splits prod.splits sum.splits
        dest: ins sparse_set_insert_errors)
  show "free_entity_ids r = [] \<Longrightarrow> e \<noteq> Entity_index_overflow \<Longrightarrow>
       last_entity_id r' = last_entity_id r + 1"
    using assms
    by (auto simp: create_entity_def Let_def split: if_splits prod.splits sum.splits)
qed

text \<open>
  C7 on the code: on a fresh registry whose first allocation fails, \<^verbatim>\<open>create_entity\<close>
  throws \<^verbatim>\<open>std::bad_alloc\<close> and leaves \<^verbatim>\<open>last_entity_id_\<close> at 1, not at its pre-call 0.
\<close>

theorem create_entity_failed_bumps_last_entity_id:
  "create_entity stingy (registry_empty :: nat registry) =
     (Inl Bad_alloc, registry_empty\<lparr>last_entity_id := 1\<rparr>)"
  by (simp add: registry_eval sparse_set_eval stingy_def Let_def)

section \<open>Allocating entity ids\<close>

lemma entity_id_indexer_bound: "entity_id_indexer v < 2 ^ 22"
proof -
  have "unat (take_bit 22 v) = take_bit 22 (unat v)" by (simp add: unsigned_take_bit_eq)
  moreover have "take_bit 22 (unat v) < 2 ^ 22" by (rule take_bit_nat_less_exp)
  ultimately show ?thesis by (simp add: entity_id_indexer_def entity_id_index_take_bit)
qed

lemma sparse_set_insert_succeeds:
  assumes "\<forall>n. alloc_ok p n" "ix v < vec_max_size p"
  shows "\<exists>b s'. sparse_set_insert p ix s v = (Inr b, s')"
  using assms
  by (auto simp: sparse_set_insert_def sparse_set_new_capacity_for_def sparse_set_max_size_def
      sparse_set_reserve_def Let_def split: sum.splits)

lemma create_entity_succeeds:
  assumes "free_entity_ids r \<noteq> [] \<or> last_entity_id r < entity_id_index_mask"
    "\<forall>n. alloc_ok p n" "2 ^ 22 \<le> vec_max_size p"
  shows "\<exists>e r'. create_entity p r = (Inr e, r')"
proof -
  have ok: "\<exists>b s'. sparse_set_insert p entity_id_indexer s v = (Inr b, s')" for s v
    using sparse_set_insert_succeeds[OF assms(2), of entity_id_indexer v s]
      entity_id_indexer_bound[of v] assms(3) by simp
  show ?thesis
  proof (cases "free_entity_ids r = []")
    case False
    obtain b s' where "sparse_set_insert p entity_id_indexer (entity_ids r)
        (entity_id_join (entity_id_index (last (free_entity_ids r)))
           (entity_id_version (last (free_entity_ids r)) + 1)) = (Inr b, s')"
      using ok by blast
    then show ?thesis using False by (simp add: create_entity_def Let_def)
  next
    case True
    obtain b s' where "sparse_set_insert p entity_id_indexer (entity_ids r)
        (last_entity_id r + 1) = (Inr b, s')"
      using ok by blast
    then show ?thesis using True assms(1) by (simp add: create_entity_def Let_def)
  qed
qed

lemma create_entity_errors:
  assumes "create_entity p r = (Inl err, r')"
  shows "err = Bad_alloc \<or> err = Length_error \<or>
     (err = Entity_index_overflow \<and> free_entity_ids r = [] \<and>
      \<not> last_entity_id r < entity_id_index_mask)"
  using assms
  by (auto simp: create_entity_def Let_def split: if_splits prod.splits sum.splits
      dest: sparse_set_insert_errors)

text \<open>
  C3: for every registry state (satisfying the invariant every reachable state has),
  \<^verbatim>\<open>create_entity\<close> behaves as follows. If the free list is non-empty, a call that
  returns pops the most recently freed id \<open>f\<close> and returns an entity whose index is
  \<open>index f\<close> and whose version is \<open>version f + 1\<close> modulo \<open>2 ^ 10\<close>, now in the live set.
  Otherwise, if \<^verbatim>\<open>last_entity_id_\<close> is below \<open>2 ^ 22 - 1\<close>, a call that returns has
  incremented it and returns that index with version 0, now in the live set. Otherwise
  the call fails with the index-overflow error, the registry unchanged. In the first two
  cases the only other outcome is an exception of the live set's growth, and with memory
  available the call does return.
\<close>

theorem create_entity_spec:
  assumes "registry_inv r"
  shows
   "(free_entity_ids r \<noteq> [] \<longrightarrow>
       (\<forall>e r'. create_entity p r = (Inr e, r') \<longrightarrow>
          entity_id_index e = entity_id_index (last (free_entity_ids r)) \<and>
          unat (entity_id_version e) =
            (unat (entity_id_version (last (free_entity_ids r))) + 1) mod 2 ^ 10 \<and>
          free_entity_ids r' = butlast (free_entity_ids r) \<and>
          last_entity_id r' = last_entity_id r \<and>
          is_entity_alive r' e \<and>
          set (sparse_set_values (entity_ids r')) =
            insert e (set (sparse_set_values (entity_ids r))))) \<and>
    (free_entity_ids r = [] \<and> last_entity_id r < entity_id_index_mask \<longrightarrow>
       (\<forall>e r'. create_entity p r = (Inr e, r') \<longrightarrow>
          last_entity_id r' = last_entity_id r + 1 \<and>
          e = last_entity_id r + 1 \<and>
          entity_id_index e = last_entity_id r + 1 \<and>
          entity_id_version e = 0 \<and>
          free_entity_ids r' = [] \<and>
          is_entity_alive r' e \<and>
          set (sparse_set_values (entity_ids r')) =
            insert e (set (sparse_set_values (entity_ids r))))) \<and>
    (free_entity_ids r = [] \<and> \<not> last_entity_id r < entity_id_index_mask \<longrightarrow>
       create_entity p r = (Inl Entity_index_overflow, r)) \<and>
    (free_entity_ids r \<noteq> [] \<or> last_entity_id r < entity_id_index_mask \<longrightarrow>
       (\<forall>err r'. create_entity p r = (Inl err, r') \<longrightarrow> err = Bad_alloc \<or> err = Length_error)) \<and>
    ((free_entity_ids r \<noteq> [] \<or> last_entity_id r < entity_id_index_mask) \<and>
     (\<forall>n. alloc_ok p n) \<and> 2 ^ 22 \<le> vec_max_size p \<longrightarrow>
       (\<exists>e r'. create_entity p r = (Inr e, r')))"
proof (intro conjI impI allI)
  fix e r'
  assume ne: "free_entity_ids r \<noteq> []" and res: "create_entity p r = (Inr e, r')"
  note cs = create_entity_success[OF assms res]
  have inv': "registry_inv r'" using create_entity_inv[OF assms, of p] res by simp
  from cs(5)[OF ne] show "entity_id_index e = entity_id_index (last (free_entity_ids r))"
    by (simp add: entity_id_index_join)
  from cs(5)[OF ne] show "unat (entity_id_version e) =
            (unat (entity_id_version (last (free_entity_ids r))) + 1) mod 2 ^ 10"
    by (simp add: entity_id_version_bump)
  from cs(5)[OF ne] show "free_entity_ids r' = butlast (free_entity_ids r)"
    "last_entity_id r' = last_entity_id r" by simp_all
  show "is_entity_alive r' e" using registry_inv_alive_iff[OF inv'] cs(1) by simp
  show "set (sparse_set_values (entity_ids r')) = insert e (set (sparse_set_values (entity_ids r)))"
    using cs(1) by simp
next
  fix e r'
  assume a: "free_entity_ids r = [] \<and> last_entity_id r < entity_id_index_mask"
    and res: "create_entity p r = (Inr e, r')"
  note cs = create_entity_success[OF assms res]
  have inv': "registry_inv r'" using create_entity_inv[OF assms, of p] res by simp
  note fi = fresh_index[of "last_entity_id r"]
  from cs(6) a show "last_entity_id r' = last_entity_id r + 1" "e = last_entity_id r + 1"
    "free_entity_ids r' = []" by simp_all
  from cs(6) a fi show "entity_id_index e = last_entity_id r + 1" "entity_id_version e = 0"
    by simp_all
  show "is_entity_alive r' e" using registry_inv_alive_iff[OF inv'] cs(1) by simp
  show "set (sparse_set_values (entity_ids r')) = insert e (set (sparse_set_values (entity_ids r)))"
    using cs(1) by simp
next
  assume "free_entity_ids r = [] \<and> \<not> last_entity_id r < entity_id_index_mask"
  then show "create_entity p r = (Inl Entity_index_overflow, r)"
    by (simp add: create_entity_def)
next
  fix err r'
  assume "free_entity_ids r \<noteq> [] \<or> last_entity_id r < entity_id_index_mask"
    and "create_entity p r = (Inl err, r')"
  then show "err = Bad_alloc \<or> err = Length_error"
    using create_entity_errors[of p r err r'] by auto
next
  assume "(free_entity_ids r \<noteq> [] \<or> last_entity_id r < entity_id_index_mask) \<and>
     (\<forall>n. alloc_ok p n) \<and> 2 ^ 22 \<le> vec_max_size p"
  then show "\<exists>e r'. create_entity p r = (Inr e, r')"
    using create_entity_succeeds[of r p] by blast
qed

lemma freed_registry_value:
  "freed_registry =
     \<lparr>last_entity_id = 1, free_entity_ids = [1],
      entity_ids = \<lparr>set_dense = [1, 0], set_sparse = [0, 0], set_size = 0, set_capacity = 2\<rparr>,
      storages = sparse_map_empty\<rparr>"
  by (simp add: freed_registry_def registry_eval sparse_set_eval sparse_map_eval entity_id_eval
      Let_def)

lemma freed_registry_create:
  "create_entity roomy freed_registry =
     (Inr 4194305,
      \<lparr>last_entity_id = 1, free_entity_ids = [],
      entity_ids = \<lparr>set_dense = [4194305, 0], set_sparse = [0, 0], set_size = 1, set_capacity = 2\<rparr>,
      storages = sparse_map_empty\<rparr>)"
  by (simp add: freed_registry_value registry_eval sparse_set_eval sparse_map_eval entity_id_eval
      Let_def)

lemma empty_registry_create:
  "create_entity roomy (registry_empty :: nat registry) =
     (Inr 1,
      \<lparr>last_entity_id = 1, free_entity_ids = [],
      entity_ids = \<lparr>set_dense = [1, 0], set_sparse = [0, 0], set_size = 1, set_capacity = 2\<rparr>,
      storages = sparse_map_empty\<rparr>)"
  by (simp add: registry_eval sparse_set_eval sparse_map_eval entity_id_eval Let_def)

lemma full_registry_inv: "registry_inv full_registry"
  using registry_empty_inv[where ?'a = nat]
  by (simp add: full_registry_def registry_inv_def registry_empty_def entity_id_index_mask_value)

theorem create_entity_spec_witness:
  "registry_inv freed_registry \<and> free_entity_ids freed_registry = [1] \<and>
   fst (create_entity roomy freed_registry) = Inr 4194305 \<and>
   entity_id_index 4194305 = entity_id_index 1 \<and>
   unat (entity_id_version 4194305) = (unat (entity_id_version 1) + 1) mod 2 ^ 10 \<and>
   is_entity_alive (snd (create_entity roomy freed_registry)) 4194305 \<and>
   registry_inv (registry_empty :: nat registry) \<and>
   fst (create_entity roomy (registry_empty :: nat registry)) = Inr 1 \<and>
   is_entity_alive (snd (create_entity roomy (registry_empty :: nat registry))) 1 \<and>
   entity_id_version 1 = 0 \<and>
   registry_inv full_registry \<and>
   create_entity roomy full_registry = (Inl Entity_index_overflow, full_registry)"
proof -
  have i1: "registry_inv freed_registry"
    unfolding freed_registry_def by (rule registry_reachable_inv)
  have f1: "free_entity_ids freed_registry = [1]" by (simp add: freed_registry_value)
  note s1 = create_entity_spec[OF i1, of roomy]
  note s2 = create_entity_spec[OF registry_empty_inv[where ?'a = nat], of roomy]
  note s3 = create_entity_spec[OF full_registry_inv, of roomy]
  have a: "entity_id_index 4194305 = entity_id_index 1 \<and>
   unat (entity_id_version 4194305) = (unat (entity_id_version 1) + 1) mod 2 ^ 10 \<and>
   is_entity_alive (snd (create_entity roomy freed_registry)) 4194305"
    using s1 f1 freed_registry_create by simp
  have b: "is_entity_alive (snd (create_entity roomy (registry_empty :: nat registry))) 1 \<and>
      entity_id_version 1 = 0"
    using s2 empty_registry_create
    by (simp add: registry_empty_def entity_id_index_mask_value)
  have c: "create_entity roomy full_registry = (Inl Entity_index_overflow, full_registry)"
    using s3 by (simp add: full_registry_def registry_empty_def entity_id_index_mask_value)
  show ?thesis
    using i1 f1 a b c freed_registry_create empty_registry_create registry_empty_inv[where ?'a = nat]
      full_registry_inv by simp
qed

end
